theory Spec2Isabelle
  imports Complex_Main "HOL-Library.Log_Nat"
begin

text \<open>
  The parallax scheduler of \<open>script.js\<close>: the function \<open>initParallax\<close> with its inner
  functions \<open>updateParallax\<close> and \<open>requestTick\<close> and its \<open>resize\<close> handler, embedded as
  functions on an explicit state of the window. What the host provides (\<open>parseFloat\<close>,
  event dispatch, \<open>requestAnimationFrame\<close>, \<open>setTimeout\<close> and \<open>clearTimeout\<close>, the
  media query) is modelled after its specification. The other initialisers of the script
  (smooth scrolling, button feedback, card tilt, fade-in) are not part of the development.
\<close>

section \<open>JavaScript numbers\<close>

text \<open>
  The script computes with JavaScript numbers, which are binary64. A finite number is
  the real it denotes; beside the finite ones there are the three special values a
  computation of \<open>script.js\<close> can meet: \<open>NaN\<close> (what \<open>parseFloat\<close> returns on a string
  with no numeric prefix) and the two infinities. The product of line 60 and the value of
  a numeric string are rounded to binary64, to nearest with ties to even, as the
  standard has it. The sums and differences of the pixel measures (lines 47, 52, 53 and
  the factor of line 60) are taken exact, as they are in binary64 for measures that are
  integers or binary fractions of moderate size. The sign of zero is not modelled.
\<close>

datatype jsnum = NaN | Num real | PosInf | NegInf

subsection \<open>Rounding to binary64\<close>

text \<open>
  \<open>pow2 e\<close> is the power of two with an integer exponent, \<open>ilog2 x\<close> the exponent \<open>e\<close>
  with \<open>2^e \<le> x < 2^(e+1)\<close> of a positive \<open>x\<close>. \<open>round64 x\<close> is the nearest multiple of
  the unit in the last place of \<open>x\<close> (53 bits of precision, the exponent not below that of
  the subnormal numbers), a tie going to the even multiple. \<open>fl x\<close> is the binary64 number
  that \<open>x\<close> rounds to: an infinity where \<open>round64 x\<close> reaches \<open>2^1024\<close>.
\<close>

definition pow2 :: "int \<Rightarrow> real" where
  "pow2 e = (if 0 \<le> e then 2 ^ nat e else 1 / 2 ^ nat (- e))"

definition ilog2 :: "real \<Rightarrow> int" where
  "ilog2 x = (if 1 \<le> x then bitlen \<lfloor>x\<rfloor> - 1 else - bitlen (\<lceil>1 / x\<rceil> - 1))"

definition roundTiesToEven :: "real \<Rightarrow> int" where
  "roundTiesToEven x =
     (let f = \<lfloor>x\<rfloor>; d = x - of_int f
      in if d < 1 / 2 then f else if 1 / 2 < d then f + 1 else if even f then f else f + 1)"

definition round64 :: "real \<Rightarrow> real" where
  "round64 x =
     (if x = 0 then 0
      else
        (let e = max (ilog2 \<bar>x\<bar>) (- 1022);
             u = pow2 (e - 52)
         in sgn x * of_int (roundTiesToEven (\<bar>x\<bar> / u)) * u))"

definition fl :: "real \<Rightarrow> jsnum" where
  "fl x =
     (let r = round64 x
      in if pow2 1024 \<le> r then PosInf else if r \<le> - pow2 1024 then NegInf else Num r)"

definition signed_inf :: "real \<Rightarrow> jsnum" where
  "signed_inf x = (if x = 0 then NaN else if 0 < x then PosInf else NegInf)"

text \<open>The operator \<open>*\<close> on numbers.\<close>

fun jsmul :: "jsnum \<Rightarrow> jsnum \<Rightarrow> jsnum" where
  "jsmul (Num x) (Num y) = fl (x * y)"
| "jsmul (Num x) PosInf = signed_inf x"
| "jsmul (Num x) NegInf = signed_inf (- x)"
| "jsmul PosInf (Num y) = signed_inf y"
| "jsmul NegInf (Num y) = signed_inf (- y)"
| "jsmul PosInf PosInf = PosInf"
| "jsmul PosInf NegInf = NegInf"
| "jsmul NegInf PosInf = NegInf"
| "jsmul NegInf NegInf = PosInf"
| "jsmul NaN b = NaN"
| "jsmul a NaN = NaN"

text \<open>Unary minus, used by \<open>parseFloat\<close> on a literal with a leading \<open>-\<close>.\<close>

fun jsneg :: "jsnum \<Rightarrow> jsnum" where
  "jsneg NaN = NaN"
| "jsneg (Num x) = Num (- x)"
| "jsneg PosInf = NegInf"
| "jsneg NegInf = PosInf"

text \<open>
  \<open>ToBoolean\<close> on a number: \<open>NaN\<close> and zero are falsy, every other number is truthy.
  \<open>a || b\<close> is \<open>a\<close> when \<open>a\<close> is truthy and \<open>b\<close> otherwise.
\<close>

fun truthy :: "jsnum \<Rightarrow> bool" where
  "truthy NaN = False"
| "truthy (Num x) = (x \<noteq> 0)"
| "truthy PosInf = True"
| "truthy NegInf = True"

definition js_or :: "jsnum \<Rightarrow> jsnum \<Rightarrow> jsnum" where
  "js_or a b = (if truthy a then a else b)"

section \<open>The host function \<open>parseFloat\<close>\<close>

text \<open>
  \<open>parseFloat\<close> is the host's (ECMAScript 19.2.4): it converts its argument to a string
  (\<open>null\<close> becomes the string \<open>null\<close>), drops leading white space, and returns the value
  of the longest prefix of the rest that is a \<open>StrDecimalLiteral\<close>, or \<open>NaN\<close> when no
  prefix is one. Strings are lists of 8-bit characters here, so the white space of the
  model is the white space of Latin-1.
\<close>

definition isWhiteSpace :: "char \<Rightarrow> bool" where
  "isWhiteSpace c =
     (c = CHR 0x09 \<or> c = CHR 0x0A \<or> c = CHR 0x0B \<or> c = CHR 0x0C \<or> c = CHR 0x0D \<or>
      c = CHR 0x20 \<or> c = CHR 0xA0)"

definition isDecimalDigit :: "char \<Rightarrow> bool" where
  "isDecimalDigit c = (48 \<le> (of_char c :: nat) \<and> (of_char c :: nat) \<le> 57)"

definition digitsValue :: "string \<Rightarrow> nat" where
  "digitsValue ds = foldl (\<lambda>n c. 10 * n + ((of_char c :: nat) - 48)) 0 ds"

text \<open>
  The optional \<open>ExponentPart\<close> at the head of a string: the exponent and what follows
  it. An \<open>e\<close> that no digit follows (after an optional sign) is not part of the literal.
\<close>

definition exponentPrefix :: "string \<Rightarrow> int \<times> string" where
  "exponentPrefix r =
     (case r of
        [] \<Rightarrow> (0, r)
      | c # r' \<Rightarrow>
          if c = CHR ''e'' \<or> c = CHR ''E'' then
            (let neg = (r' \<noteq> [] \<and> hd r' = CHR ''-'');
                 r'' = (if r' \<noteq> [] \<and> (hd r' = CHR ''+'' \<or> hd r' = CHR ''-'') then tl r' else r');
                 ds = takeWhile isDecimalDigit r''
             in if ds = [] then (0, r)
                else ((if neg then - int (digitsValue ds) else int (digitsValue ds)),
                      dropWhile isDecimalDigit r''))
          else (0, r))"

definition decimalValue :: "string \<Rightarrow> string \<Rightarrow> int \<Rightarrow> real" where
  "decimalValue ip fp e =
     (let m = real (digitsValue ip) + real (digitsValue fp) / 10 ^ length fp
      in if 0 \<le> e then m * 10 ^ nat e else m / 10 ^ nat (- e))"

text \<open>The longest \<open>StrUnsignedDecimalLiteral\<close> at the head of a string, with the rest.\<close>

definition unsignedPrefix :: "string \<Rightarrow> (jsnum \<times> string) option" where
  "unsignedPrefix s =
     (if take 8 s = ''Infinity'' then Some (PosInf, drop 8 s)
      else
        (let ip = takeWhile isDecimalDigit s;
             r1 = dropWhile isDecimalDigit s;
             dot = (r1 \<noteq> [] \<and> hd r1 = CHR ''.'');
             fp = (if dot then takeWhile isDecimalDigit (tl r1) else []);
             r2 = (if dot then dropWhile isDecimalDigit (tl r1) else r1)
         in if ip = [] \<and> fp = [] then None
            else (case exponentPrefix r2 of
                    (e, r3) \<Rightarrow> Some (fl (decimalValue ip fp e), r3))))"

definition signedPrefix :: "string \<Rightarrow> (jsnum \<times> string) option" where
  "signedPrefix t =
     (case t of
        [] \<Rightarrow> None
      | c # t' \<Rightarrow>
          if c = CHR ''+'' then unsignedPrefix t'
          else if c = CHR ''-'' then map_option (\<lambda>(v, r). (jsneg v, r)) (unsignedPrefix t')
          else unsignedPrefix t)"

definition attrToString :: "string option \<Rightarrow> string" where
  "attrToString a = (case a of None \<Rightarrow> ''null'' | Some s \<Rightarrow> s)"

definition parseFloat :: "string option \<Rightarrow> jsnum" where
  "parseFloat a =
     (case signedPrefix (dropWhile isWhiteSpace (attrToString a)) of
        None \<Rightarrow> NaN
      | Some (v, r) \<Rightarrow> v)"

subsection \<open>The grammar of numeric strings\<close>

text \<open>
  What a numeric prefix is, by the grammar of ECMAScript 7.1.4.1 and not by the scanner
  above: \<open>StrDecimalLiteral p v\<close> says that the whole of \<open>p\<close> is a \<open>StrDecimalLiteral\<close>
  and that \<open>v\<close> is its value. The statements about attribute values that have, or have not,
  a numeric prefix are made with it.
\<close>

definition isDigits :: "string \<Rightarrow> bool" where
  "isDigits ds = (ds \<noteq> [] \<and> list_all isDecimalDigit ds)"

definition isExponentIndicator :: "char \<Rightarrow> bool" where
  "isExponentIndicator c = (c = CHR ''e'' \<or> c = CHR ''E'')"

inductive ExponentPart :: "string \<Rightarrow> int \<Rightarrow> bool" where
  exp_plain: "isExponentIndicator c \<Longrightarrow> isDigits ds \<Longrightarrow>
    ExponentPart (c # ds) (int (digitsValue ds))"
| exp_plus: "isExponentIndicator c \<Longrightarrow> isDigits ds \<Longrightarrow>
    ExponentPart (c # CHR ''+'' # ds) (int (digitsValue ds))"
| exp_minus: "isExponentIndicator c \<Longrightarrow> isDigits ds \<Longrightarrow>
    ExponentPart (c # CHR ''-'' # ds) (- int (digitsValue ds))"

inductive OptExponentPart :: "string \<Rightarrow> int \<Rightarrow> bool" where
  exp_absent: "OptExponentPart [] 0"
| exp_present: "ExponentPart ex e \<Longrightarrow> OptExponentPart ex e"

inductive StrUnsignedDecimalLiteral :: "string \<Rightarrow> jsnum \<Rightarrow> bool" where
  lit_infinity: "StrUnsignedDecimalLiteral ''Infinity'' PosInf"
| lit_int_dot: "isDigits ip \<Longrightarrow> list_all isDecimalDigit fp \<Longrightarrow> OptExponentPart ex e \<Longrightarrow>
    StrUnsignedDecimalLiteral (ip @ CHR ''.'' # fp @ ex) (fl (decimalValue ip fp e))"
| lit_dot: "isDigits fp \<Longrightarrow> OptExponentPart ex e \<Longrightarrow>
    StrUnsignedDecimalLiteral (CHR ''.'' # fp @ ex) (fl (decimalValue [] fp e))"
| lit_int: "isDigits ip \<Longrightarrow> OptExponentPart ex e \<Longrightarrow>
    StrUnsignedDecimalLiteral (ip @ ex) (fl (decimalValue ip [] e))"

inductive StrDecimalLiteral :: "string \<Rightarrow> jsnum \<Rightarrow> bool" where
  lit_unsigned: "StrUnsignedDecimalLiteral p v \<Longrightarrow> StrDecimalLiteral p v"
| lit_plus: "StrUnsignedDecimalLiteral p v \<Longrightarrow> StrDecimalLiteral (CHR ''+'' # p) v"
| lit_minus: "StrUnsignedDecimalLiteral p v \<Longrightarrow> StrDecimalLiteral (CHR ''-'' # p) (jsneg v)"

text \<open>
  An attribute value has a numeric prefix when, after its leading white space, one of its
  prefixes is a literal. What follows a literal cannot continue it when it is empty, or
  begins with a character that is no digit and no point and does not begin an exponent
  part (an exponent indicator, an optional sign, a digit).
\<close>

definition hasNumericPrefix :: "string \<Rightarrow> bool" where
  "hasNumericPrefix s = (\<exists>p r v. dropWhile isWhiteSpace s = p @ r \<and> StrDecimalLiteral p v)"

definition startsExponentPart :: "string \<Rightarrow> bool" where
  "startsExponentPart r =
     (case r of
        c # d # r' \<Rightarrow>
          isExponentIndicator c \<and>
          (isDecimalDigit d \<or>
           ((d = CHR ''+'' \<or> d = CHR ''-'') \<and> r' \<noteq> [] \<and> isDecimalDigit (hd r')))
      | _ \<Rightarrow> False)"

definition endsLiteral :: "string \<Rightarrow> bool" where
  "endsLiteral r =
     (r = [] \<or> \<not> (isDecimalDigit (hd r) \<or> hd r = CHR ''.'' \<or> startsExponentPart r))"

section \<open>The document as the script sees it\<close>

text \<open>
  \<open>element.style.transform\<close> holds a string. The one string the script builds is the
  template literal \<open>translate3d(0, ${offset}px, 0)\<close>, kept as \<open>Translate3d offset\<close> so that
  the number inside stays a number; any other value is \<open>Css\<close> of its text. The field
  holds what was assigned last: how the host reads the string (and that it drops one that
  is no transform, as with an offset that is not finite) is not part of the model.
\<close>

datatype transform_value = Css string | Translate3d jsnum

record element =
  data_depth :: "string option"
  rect_top :: real
  offsetHeight :: int
  style_transform :: transform_value

text \<open>
  \<open>data_depth\<close> is what \<open>getAttribute('data-depth')\<close> returns (\<open>None\<close> for \<open>null\<close>),
  \<open>rect_top\<close> what \<open>getBoundingClientRect().top\<close> returns, \<open>offsetHeight\<close> the property of
  that name. They are read from the host anew at every pass; the script writes none of
  them. The host may change them at any time (a \<open>Mutate\<close> below), also in reaction to
  a transform the script has written.
\<close>

record page =
  scrollY :: real
  innerHeight :: int
  document_nodes :: "nat list"
  node :: "nat \<Rightarrow> element"

section \<open>The body of \<open>updateParallax\<close>\<close>

definition depth :: "element \<Rightarrow> jsnum" where
  "depth el = js_or (parseFloat (data_depth el)) (Num 0)"

definition elementTop :: "real \<Rightarrow> element \<Rightarrow> real" where
  "elementTop sy el = rect_top el + sy"

definition isInViewport :: "real \<Rightarrow> int \<Rightarrow> element \<Rightarrow> bool" where
  "isInViewport sy windowHeight el =
     (elementTop sy el < sy + real_of_int windowHeight + 200 \<and>
      elementTop sy el + real_of_int (offsetHeight el) > sy - 200)"

definition offset :: "real \<Rightarrow> int \<Rightarrow> real \<Rightarrow> jsnum \<Rightarrow> jsnum" where
  "offset sy windowHeight etop d = jsmul (Num (sy - etop + real_of_int windowHeight / 2)) d"

text \<open>One turn of the \<open>forEach\<close>: what the callback does to one element.\<close>

definition parallaxElement :: "real \<Rightarrow> int \<Rightarrow> element \<Rightarrow> element" where
  "parallaxElement sy windowHeight el =
     (if isInViewport sy windowHeight el then
        el\<lparr>style_transform :=
            Translate3d (offset sy windowHeight (elementTop sy el) (depth el))\<rparr>
      else el)"

section \<open>The window: listeners, animation frames, timers\<close>

text \<open>
  The state the script runs in. \<open>page\<close> and \<open>reduced_motion\<close> (what
  \<open>matchMedia('(prefers-reduced-motion: reduce)').matches\<close> returns now) belong to the
  host. \<open>prefersReducedMotion\<close> is the script's constant; \<open>parallaxElements\<close>, \<open>ticking\<close>,
  \<open>lastScrollY\<close> and \<open>resizeTimeout\<close> are the variables of \<open>initParallax\<close>'s closure
  (\<open>None\<close> for \<open>undefined\<close>). \<open>scroll_listener\<close> says that \<open>requestTick\<close> is registered for
  \<open>scroll\<close>, \<open>resize_listener\<close> that the anonymous handler is registered for \<open>resize\<close>.
  \<open>frame_requests\<close> counts the \<open>updateParallax\<close> callbacks queued by
  \<open>requestAnimationFrame\<close> for the next display refresh; \<open>timers\<close> lists the pending
  \<open>setTimeout(updateParallax, ...)\<close> calls as pairs of handle and due time, \<open>next_timer\<close> is
  the next handle, \<open>now\<close> the clock in milliseconds. \<open>passes\<close> is a trace: the clock at each
  call of \<open>updateParallax\<close>. No operation reads it.
\<close>

record world =
  page :: page
  reduced_motion :: bool
  prefersReducedMotion :: bool
  parallaxElements :: "nat list"
  ticking :: bool
  lastScrollY :: real
  resizeTimeout :: "nat option"
  scroll_listener :: bool
  resize_listener :: bool
  frame_requests :: nat
  timers :: "(nat \<times> nat) list"
  next_timer :: nat
  now :: nat
  passes :: "nat list"

definition updateParallax :: "world \<Rightarrow> world" where
  "updateParallax w =
     (let sy = scrollY (page w);
          windowHeight = innerHeight (page w);
          nd = fold (\<lambda>i nd. nd(i := parallaxElement sy windowHeight (nd i)))
                 (parallaxElements w) (node (page w))
      in w\<lparr>page := (page w)\<lparr>node := nd\<rparr>, ticking := False, passes := passes w @ [now w]\<rparr>)"

definition requestTick :: "world \<Rightarrow> world" where
  "requestTick w =
     (if \<not> ticking w then w\<lparr>frame_requests := frame_requests w + 1, ticking := True\<rparr>
      else w)"

text \<open>
  The host's timers: \<open>clearTimeout\<close> of a handle that is not pending (or of \<open>undefined\<close>)
  does nothing; \<open>setTimeout\<close> returns a handle never used before.
\<close>

definition clearTimeout :: "nat option \<Rightarrow> world \<Rightarrow> world" where
  "clearTimeout h w =
     (case h of
        None \<Rightarrow> w
      | Some i \<Rightarrow> w\<lparr>timers := filter (\<lambda>t. fst t \<noteq> i) (timers w)\<rparr>)"

definition setTimeout :: "nat \<Rightarrow> world \<Rightarrow> nat \<times> world" where
  "setTimeout delay w =
     (next_timer w,
      w\<lparr>timers := timers w @ [(next_timer w, now w + delay)], next_timer := next_timer w + 1\<rparr>)"

text \<open>The anonymous \<open>resize\<close> handler.\<close>

definition onResize :: "world \<Rightarrow> world" where
  "onResize w =
     (case setTimeout 150 (clearTimeout (resizeTimeout w) w) of
        (h, w') \<Rightarrow> w'\<lparr>resizeTimeout := Some h\<rparr>)"

text \<open>Line 12 of the script, run when the script is loaded.\<close>

definition load_script :: "world \<Rightarrow> world" where
  "load_script w = w\<lparr>prefersReducedMotion := reduced_motion w\<rparr>"

definition querySelectorAll_data_depth :: "page \<Rightarrow> nat list" where
  "querySelectorAll_data_depth p = filter (\<lambda>i. data_depth (node p i) \<noteq> None) (document_nodes p)"

definition initParallax :: "world \<Rightarrow> world" where
  "initParallax w =
     (if prefersReducedMotion w then w
      else
        (let els = querySelectorAll_data_depth (page w)
         in if length els = 0 then w
            else
              (let w1 = w\<lparr>parallaxElements := els, ticking := False,
                          lastScrollY := scrollY (page w)\<rparr>;
                   w2 = w1\<lparr>scroll_listener := True\<rparr>;
                   w3 = updateParallax w2
               in w3\<lparr>resizeTimeout := None, resize_listener := True\<rparr>)))"

text \<open>A window in which nothing of the script has run yet.\<close>

definition fresh :: "page \<Rightarrow> bool \<Rightarrow> world" where
  "fresh p rm =
     \<lparr>page = p, reduced_motion = rm, prefersReducedMotion = False, parallaxElements = [],
      ticking = False, lastScrollY = 0, resizeTimeout = None, scroll_listener = False,
      resize_listener = False, frame_requests = 0, timers = [], next_timer = 1, now = 0,
      passes = []\<rparr>"

definition boot :: "page \<Rightarrow> bool \<Rightarrow> world" where
  "boot p rm = initParallax (load_script (fresh p rm))"

text \<open>
  What the host does to the script. \<open>Scroll\<close> and \<open>Resize\<close> dispatch the event to the
  registered listener; \<open>Frame\<close> is a display refresh, which empties the list of queued
  animation-frame callbacks and runs them; \<open>Elapse n\<close> lets \<open>n\<close> milliseconds pass, each
  timer that falls due running at its due time, earliest first; \<open>Mutate f\<close> is any change
  of the page made by the user, the layout or other code (the page moving under a scroll
  is a \<open>Mutate\<close>, the event that reports it a \<open>Scroll\<close>); \<open>PrefChange b\<close> is the user
  changing the reduced-motion preference.
\<close>

datatype event = Scroll | Resize | Frame | Elapse nat | Mutate "page \<Rightarrow> page" | PrefChange bool

definition fire :: "nat \<times> nat \<Rightarrow> world \<Rightarrow> world" where
  "fire t w =
     updateParallax
       (w\<lparr>timers := filter (\<lambda>u. fst u \<noteq> fst t) (timers w), now := max (now w) (snd t)\<rparr>)"

definition elapse :: "nat \<Rightarrow> world \<Rightarrow> world" where
  "elapse n w =
     (let target = now w + n;
          due = sort_key snd (filter (\<lambda>t. snd t \<le> target) (timers w))
      in (fold fire due w)\<lparr>now := target\<rparr>)"

fun step :: "event \<Rightarrow> world \<Rightarrow> world" where
  "step Scroll w = (if scroll_listener w then requestTick w else w)"
| "step Resize w = (if resize_listener w then onResize w else w)"
| "step Frame w = (updateParallax ^^ frame_requests w) (w\<lparr>frame_requests := 0\<rparr>)"
| "step (Elapse n) w = elapse n w"
| "step (Mutate f) w = w\<lparr>page := f (page w)\<rparr>"
| "step (PrefChange b) w = w\<lparr>reduced_motion := b\<rparr>"

definition run :: "event list \<Rightarrow> world \<Rightarrow> world" where
  "run evs w = fold step evs w"

text \<open>
  What the events alone do to the page: the changes of \<open>Mutate\<close>, in order. A run whose
  page is this page added nothing of its own.
\<close>

fun mutation :: "event \<Rightarrow> page \<Rightarrow> page" where
  "mutation (Mutate f) p = f p"
| "mutation e p = p"

fun is_PrefChange :: "event \<Rightarrow> bool" where
  "is_PrefChange (PrefChange b) = True"
| "is_PrefChange e = False"

text \<open>A window in which the script has registered nothing, queued nothing and run no pass.\<close>

definition idle :: "world \<Rightarrow> bool" where
  "idle w =
     (\<not> scroll_listener w \<and> \<not> resize_listener w \<and> frame_requests w = 0 \<and>
      timers w = [] \<and> passes w = [])"

text \<open>Every pending timer is the one whose handle \<open>resizeTimeout\<close> holds.\<close>

definition timer_inv :: "world \<Rightarrow> bool" where
  "timer_inv w = list_all (\<lambda>t. resizeTimeout w = Some (fst t)) (timers w)"

text \<open>
  No timer is pending, and a callback is queued for the next refresh exactly when the flag
  is set, and then only one.
\<close>

definition flag_inv :: "world \<Rightarrow> bool" where
  "flag_inv w = (timers w = [] \<and> frame_requests w = (if ticking w then 1 else 0))"

text \<open>
  A burst of \<open>resize\<close> events: the first one, then one more after each gap of the list
  (in milliseconds).
\<close>

definition resize_burst :: "nat list \<Rightarrow> event list" where
  "resize_burst gaps = Resize # concat (map (\<lambda>g. [Elapse g, Resize]) gaps)"

text \<open>
  What the host does to the boxes after the script has written transforms: the top that
  \<open>getBoundingClientRect\<close> reports is that of the box as its transform has moved it, so
  when the script changes the page \<open>before\<close> into the page \<open>after\<close>, each top moves by
  the change of the vertical translation. \<open>translateY\<close> is the vertical translation of a
  transform the script wrote; a transform that is not a finite translation of the script
  (a text set by other code, an offset that is not finite) is taken to have none.
\<close>

definition translateY :: "transform_value \<Rightarrow> real" where
  "translateY t = (case t of Translate3d (Num y) \<Rightarrow> y | _ \<Rightarrow> 0)"

definition host_reflects :: "page \<Rightarrow> page \<Rightarrow> page" where
  "host_reflects before after =
     after\<lparr>node := (\<lambda>i. (node after i)\<lparr>rect_top :=
       rect_top (node after i) +
       (translateY (style_transform (node after i)) -
        translateY (style_transform (node before i)))\<rparr>)\<rparr>"

text \<open>
  A page used to run the definitions: scrolled to 500 in a viewport 800 high, with a
  trackable element in the viewport (node 0, at 1000 in the document), a trackable element
  far below it (node 1) and an element without the attribute (every other node).
\<close>

definition demo_element :: element where
  "demo_element =
     \<lparr>data_depth = Some ''0.5'', rect_top = 500, offsetHeight = 100,
      style_transform = Css ''scale(0.98)''\<rparr>"

definition far_element :: element where
  "far_element =
     \<lparr>data_depth = Some ''-0.3'', rect_top = 5000, offsetHeight = 50,
      style_transform = Css ''none''\<rparr>"

definition plain_element :: element where
  "plain_element =
     \<lparr>data_depth = None, rect_top = 100, offsetHeight = 40, style_transform = Css ''none''\<rparr>"

definition demo_page :: page where
  "demo_page =
     \<lparr>scrollY = 500, innerHeight = 800, document_nodes = [0, 1, 2],
      node = (\<lambda>i. if i = 0 then demo_element else if i = 1 then far_element
                  else plain_element)\<rparr>"

text \<open>
  Two elements at 897 in the document, where the factor \<open>s - elementTop + v / 2\<close> of the
  demonstration page is 3, with the depths 0.1 and 0.5.
\<close>

definition tenth_element :: element where
  "tenth_element =
     \<lparr>data_depth = Some ''0.1'', rect_top = 397, offsetHeight = 100,
      style_transform = Css ''none''\<rparr>"

definition half_element :: element where
  "half_element =
     \<lparr>data_depth = Some ''0.5'', rect_top = 397, offsetHeight = 100,
      style_transform = Css ''none''\<rparr>"

text \<open>A page of one element, the one of depth 0.5, scrolled to 500 in a viewport 800 high.\<close>

definition half_page :: page where
  "half_page =
     \<lparr>scrollY = 500, innerHeight = 800, document_nodes = [0], node = (\<lambda>i. half_element)\<rparr>"

section \<open>Rounding\<close>

lemma pow2_powr: "pow2 e = 2 powr (real_of_int e)"
proof (cases "0 \<le> e")
  case True
  then have "2 powr (real_of_int e) = (2::real) ^ nat e"
    using powr_realpow [of 2 "nat e"] by simp
  with True show ?thesis by (simp add: pow2_def)
next
  case False
  then have "2 powr (real_of_int e) = 1 / (2::real) ^ nat (- e)"
    using powr_realpow [of 2 "nat (- e)"] powr_minus_divide [of 2 "real_of_int (- e)"] by simp
  with False show ?thesis by (simp add: pow2_def)
qed

lemma pow2_pos [simp]: "0 < pow2 e"
  by (simp add: pow2_powr)

lemma pow2_add: "pow2 (a + b) = pow2 a * pow2 b"
  by (simp add: pow2_powr powr_add)

lemma pow2_nonneg [simp]: "0 \<le> pow2 e"
  using pow2_pos [of e] by linarith

lemma pow2_not_le [simp]: "\<not> pow2 e \<le> 0"
  using pow2_pos [of e] by linarith

lemma pow2_Suc: "pow2 (e + 1) = 2 * pow2 e"
  by (simp add: pow2_powr powr_add)

lemma pow2_Suc2: "pow2 (e + 2) = 4 * pow2 e"
  by (simp add: pow2_powr powr_add)

lemma pow2_less_iff [simp]: "pow2 a < pow2 b \<longleftrightarrow> a < b"
  by (simp add: pow2_powr)

lemma pow2_le_iff [simp]: "pow2 a \<le> pow2 b \<longleftrightarrow> a \<le> b"
  by (simp add: pow2_powr)

lemma pow2_nat: "0 \<le> e \<Longrightarrow> pow2 e = 2 ^ nat e"
  by (simp add: pow2_def)

lemma ilog2_bounds:
  assumes "0 < x"
  shows "pow2 (ilog2 x) \<le> x \<and> x < pow2 (ilog2 x + 1)"
proof (cases "1 \<le> x")
  case True
  define n where "n = \<lfloor>x\<rfloor>"
  have n: "0 < n" "real_of_int n \<le> x" "x < real_of_int n + 1"
    using True floor_correct [of x] by (simp_all add: n_def)
  have b: "1 \<le> bitlen n" using n(1) by (auto simp: bitlen_alt_def)
  from bitlen_bounds [OF n(1)] have "(2::int) ^ nat (bitlen n - 1) \<le> n" "n + 1 \<le> 2 ^ nat (bitlen n)"
    by auto
  then have "real_of_int (2 ^ nat (bitlen n - 1)) \<le> real_of_int n"
    "real_of_int (n + 1) \<le> real_of_int (2 ^ nat (bitlen n))"
    by (simp_all only: of_int_le_iff)
  then have r: "(2::real) ^ nat (bitlen n - 1) \<le> real_of_int n"
    "real_of_int n + 1 \<le> 2 ^ nat (bitlen n)"
    by simp_all
  have e: "ilog2 x = bitlen n - 1" using True by (simp add: ilog2_def n_def)
  have p: "pow2 (bitlen n - 1) = 2 ^ nat (bitlen n - 1)" "pow2 (bitlen n - 1 + 1) = 2 ^ nat (bitlen n)"
    using b by (simp_all add: pow2_nat)
  show ?thesis
    unfolding e p using r n by (intro conjI) linarith+
next
  case False
  define c where "c = \<lceil>1 / x\<rceil> - 1"
  have y: "1 < 1 / x" using assms False by simp
  have c: "0 < c" "real_of_int c < 1 / x" "1 / x \<le> real_of_int c + 1"
    using y ceiling_correct [of "1 / x"] by (simp_all add: c_def less_ceiling_iff)
  have b: "1 \<le> bitlen c" using c(1) by (auto simp: bitlen_alt_def)
  from bitlen_bounds [OF c(1)] have "(2::int) ^ nat (bitlen c - 1) \<le> c" "c + 1 \<le> 2 ^ nat (bitlen c)"
    by auto
  then have "real_of_int (2 ^ nat (bitlen c - 1)) \<le> real_of_int c"
    "real_of_int (c + 1) \<le> real_of_int (2 ^ nat (bitlen c))"
    by (simp_all only: of_int_le_iff)
  then have r: "(2::real) ^ nat (bitlen c - 1) \<le> real_of_int c"
    "real_of_int c + 1 \<le> 2 ^ nat (bitlen c)"
    by simp_all
  have up: "1 / x \<le> 2 ^ nat (bitlen c)" using c r by linarith
  have lo: "2 ^ nat (bitlen c - 1) < 1 / x" using c r by linarith
  have "1 / 2 ^ nat (bitlen c) \<le> x"
    using up assms by (simp add: field_simps)
  moreover have "x < pow2 (1 - bitlen c)"
  proof (cases "bitlen c = 1")
    case True
    then show ?thesis using False by (simp add: pow2_def)
  next
    case F: False
    then have "nat (bitlen c - 1) = nat (- (1 - bitlen c))" "\<not> 0 \<le> 1 - bitlen c"
      using b by auto
    then show ?thesis using lo assms by (simp add: pow2_def field_simps)
  qed
  ultimately show ?thesis using False b
    by (simp add: ilog2_def c_def [symmetric] pow2_def)
qed

lemma ilog2_eqI:
  assumes "pow2 e \<le> x" "x < pow2 (e + 1)"
  shows "ilog2 x = e"
proof -
  have "0 < x" using assms(1) pow2_pos [of e] by linarith
  from ilog2_bounds [OF this] have "pow2 (ilog2 x) < pow2 (e + 1)" "pow2 e < pow2 (ilog2 x + 1)"
    using assms by linarith+
  then show ?thesis by simp
qed

lemma ilog2_double:
  assumes "0 < x"
  shows "ilog2 (2 * x) = ilog2 x + 1"
proof (rule ilog2_eqI)
  show "pow2 (ilog2 x + 1) \<le> 2 * x"
    using ilog2_bounds [OF assms] by (simp add: pow2_Suc)
  have "pow2 (ilog2 x + 1 + 1) = 2 * pow2 (ilog2 x + 1)" by (rule pow2_Suc)
  then show "2 * x < pow2 (ilog2 x + 1 + 1)"
    using ilog2_bounds [OF assms] by linarith
qed

lemma roundTiesToEven_bounds: "\<lfloor>x\<rfloor> \<le> roundTiesToEven x \<and> roundTiesToEven x \<le> \<lfloor>x\<rfloor> + 1"
  by (simp add: roundTiesToEven_def Let_def)

lemma round64_zero [simp]: "round64 0 = 0"
  by (simp add: round64_def)

lemma round64_normal:
  assumes "pow2 e \<le> \<bar>x\<bar>" "\<bar>x\<bar> < pow2 (e + 1)" "- 1022 \<le> e"
  shows "round64 x = sgn x * of_int (roundTiesToEven (\<bar>x\<bar> / pow2 (e - 52))) * pow2 (e - 52)"
proof -
  have "x \<noteq> 0" using assms(1) by auto
  moreover have "ilog2 \<bar>x\<bar> = e" using assms by (intro ilog2_eqI)
  ultimately show ?thesis using assms(3) by (simp add: round64_def max_def Let_def)
qed

lemma round64_abs_le:
  assumes "pow2 e \<le> \<bar>x\<bar>" "\<bar>x\<bar> < pow2 (e + 1)" "- 1022 \<le> e"
  shows "\<bar>round64 x\<bar> \<le> pow2 (e + 1)"
proof -
  let ?u = "pow2 (e - 52)"
  let ?m = "roundTiesToEven (\<bar>x\<bar> / ?u)"
  have s: "pow2 (e + 1) = pow2 53 * ?u"
    using pow2_add [of 53 "e - 52"] by (simp add: algebra_simps)
  have q: "\<bar>x\<bar> / ?u < pow2 53" using assms(2) s by (simp add: field_simps)
  have "0 \<le> \<bar>x\<bar> / ?u" by simp
  then have m0: "0 \<le> ?m" using roundTiesToEven_bounds [of "\<bar>x\<bar> / ?u"] by linarith
  have "\<lfloor>\<bar>x\<bar> / ?u\<rfloor> < 2 ^ 53"
    using q by (simp add: pow2_def floor_less_iff)
  then have "?m \<le> 2 ^ 53" using roundTiesToEven_bounds [of "\<bar>x\<bar> / ?u"] by linarith
  then have "real_of_int ?m \<le> pow2 53"
    by (simp add: pow2_def)
  then have "real_of_int ?m * ?u \<le> pow2 53 * ?u"
    by (simp add: mult_right_mono)
  moreover have "\<bar>round64 x\<bar> = real_of_int ?m * ?u"
    using round64_normal [OF assms] m0 assms(1) by (auto simp: abs_mult abs_sgn_eq)
  ultimately show ?thesis using s by simp
qed

lemma round64_double:
  assumes "pow2 (- 1022) \<le> \<bar>x\<bar>"
  shows "round64 (2 * x) = 2 * round64 x"
proof -
  have x: "0 < \<bar>x\<bar>" using assms pow2_pos [of "- 1022"] by linarith
  define e where "e = ilog2 \<bar>x\<bar>"
  have b: "pow2 e \<le> \<bar>x\<bar>" "\<bar>x\<bar> < pow2 (e + 1)"
    using ilog2_bounds [OF x] by (simp_all add: e_def)
  have "pow2 (- 1022) < pow2 (e + 1)" using assms b by linarith
  then have e: "- 1022 \<le> e" by simp
  have "pow2 (e + 1 + 1) = 2 * pow2 (e + 1)" by (rule pow2_Suc)
  then have b2: "pow2 (e + 1) \<le> \<bar>2 * x\<bar>" "\<bar>2 * x\<bar> < pow2 (e + 1 + 1)"
    using b by (simp_all add: pow2_Suc abs_mult)
  have "e + 1 - 52 = e - 52 + 1" by simp
  then have u: "pow2 (e + 1 - 52) = 2 * pow2 (e - 52)"
    using pow2_Suc [of "e - 52"] by simp
  have "round64 (2 * x) =
        sgn (2 * x) * of_int (roundTiesToEven (\<bar>2 * x\<bar> / pow2 (e + 1 - 52))) * pow2 (e + 1 - 52)"
    using e by (intro round64_normal [OF b2]) simp
  also have "\<dots> = 2 * (sgn x * of_int (roundTiesToEven (\<bar>x\<bar> / pow2 (e - 52))) * pow2 (e - 52))"
    by (simp only: u) (simp add: abs_mult sgn_mult)
  also have "\<dots> = 2 * round64 x"
    using round64_normal [OF b e] by simp
  finally show ?thesis .
qed

lemma fl_zero [simp]: "fl 0 = Num 0"
proof -
  have "\<not> 0 \<le> - pow2 1024" using pow2_pos [of 1024] by linarith
  then show ?thesis by (simp add: fl_def)
qed

lemma fl_not_NaN [simp]: "fl x \<noteq> NaN" "NaN \<noteq> fl x"
  by (simp_all add: fl_def Let_def)

lemma fl_normal:
  assumes "pow2 e \<le> \<bar>x\<bar>" "\<bar>x\<bar> < pow2 (e + 1)" "- 1022 \<le> e" "e \<le> 1022"
  shows "fl x = Num (sgn x * of_int (roundTiesToEven (\<bar>x\<bar> / pow2 (e - 52))) * pow2 (e - 52))"
proof -
  have "\<bar>round64 x\<bar> \<le> pow2 (e + 1)" by (rule round64_abs_le [OF assms(1-3)])
  moreover have "pow2 (e + 1) < pow2 1024" using assms(4) by simp
  ultimately have "\<bar>round64 x\<bar> < pow2 1024" by linarith
  then show ?thesis using round64_normal [OF assms(1-3)] by (simp add: fl_def Let_def abs_less_iff)
qed

text \<open>The rounded values that the demonstration pages need.\<close>

lemma fl_values:
  "fl (1 / 2) = Num (1 / 2)" "fl 1 = Num 1" "fl (3 / 2) = Num (3 / 2)"
  "fl (- 25) = Num (- 25)" "fl (- 50) = Num (- 50)" "fl (- 100) = Num (- 100)"
  by (subst fl_normal [where e = "- 1"], simp_all add: pow2_def roundTiesToEven_def,
      subst fl_normal [where e = 0], simp_all add: pow2_def roundTiesToEven_def,
      subst fl_normal [where e = 0], simp_all add: pow2_def roundTiesToEven_def,
      subst fl_normal [where e = 4], simp_all add: pow2_def roundTiesToEven_def,
      subst fl_normal [where e = 5], simp_all add: pow2_def roundTiesToEven_def,
      subst fl_normal [where e = 6], simp_all add: pow2_def roundTiesToEven_def)

section \<open>The scanner against the grammar\<close>

text \<open>
  What the scanner returns is the value of a literal that is a prefix of its input
  (\<open>signedPrefix_sound\<close>); it returns the value of a literal that what follows cannot
  continue (\<open>parseFloat_prefix\<close>); it fails exactly when no prefix is a literal
  (\<open>parseFloat_NaN_iff\<close>); and what it returns is the value of the longest prefix that
  is a literal (\<open>parseFloat_longest_prefix\<close>), as the standard has it.
\<close>

lemma not_digit [simp]:
  "\<not> isDecimalDigit CHR ''.''" "\<not> isDecimalDigit CHR ''e''" "\<not> isDecimalDigit CHR ''E''"
  "\<not> isDecimalDigit CHR ''+''" "\<not> isDecimalDigit CHR ''-''" "\<not> isDecimalDigit CHR ''I''"
  by (simp_all add: isDecimalDigit_def)

lemma span_digits:
  assumes "list_all isDecimalDigit ds" "r = [] \<or> \<not> isDecimalDigit (hd r)"
  shows "takeWhile isDecimalDigit (ds @ r) = ds" "dropWhile isDecimalDigit (ds @ r) = r"
  using assms by (cases r; simp add: list_all_iff takeWhile_append2 dropWhile_append2)+

lemma takeWhile_digits: "list_all isDecimalDigit (takeWhile isDecimalDigit s)"
  by (simp add: list_all_iff) (meson set_takeWhileD)

lemma exponentPrefix_sound:
  assumes "exponentPrefix r = (e, r')"
  shows "\<exists>ex. r = ex @ r' \<and> OptExponentPart ex e"
proof (cases "e = 0 \<and> r' = r")
  case True
  then show ?thesis using exp_absent by auto
next
  case False
  then obtain c r0 where r: "r = c # r0" and c: "isExponentIndicator c"
    using assms by (cases r) (auto simp: exponentPrefix_def isExponentIndicator_def split: if_splits)
  define signed where "signed = (r0 \<noteq> [] \<and> (hd r0 = CHR ''+'' \<or> hd r0 = CHR ''-''))"
  define r1 where "r1 = (if signed then tl r0 else r0)"
  define ds where "ds = takeWhile isDecimalDigit r1"
  have ds: "isDigits ds" and r': "r' = dropWhile isDecimalDigit r1"
    and e: "e = (if r0 \<noteq> [] \<and> hd r0 = CHR ''-'' then - int (digitsValue ds) else int (digitsValue ds))"
    using assms False r c
    by (auto simp: exponentPrefix_def isExponentIndicator_def Let_def isDigits_def takeWhile_digits
        ds_def r1_def signed_def split: if_splits)
  have r1: "r1 = ds @ r'" by (simp add: ds_def r')
  show ?thesis
  proof (cases signed)
    case False
    then have "r = (c # ds) @ r'" "e = int (digitsValue ds)"
      using r r1 e ds by (auto simp: r1_def signed_def isDigits_def ds_def)
    then show ?thesis using exp_present [OF exp_plain [OF c ds]] by metis
  next
    case True
    then obtain sg where r0: "r0 = sg # r1" and sg: "sg = CHR ''+'' \<or> sg = CHR ''-''"
      by (cases r0) (auto simp: signed_def r1_def)
    show ?thesis
    proof (cases "sg = CHR ''-''")
      case True
      then have "r = (c # CHR ''-'' # ds) @ r'" "e = - int (digitsValue ds)"
        using r r0 r1 e by auto
      then show ?thesis using exp_present [OF exp_minus [OF c ds]] by metis
    next
      case False
      then have "r = (c # CHR ''+'' # ds) @ r'" "e = int (digitsValue ds)"
        using r r0 r1 e sg by auto
      then show ?thesis using exp_present [OF exp_plus [OF c ds]] by metis
    qed
  qed
qed

lemma unsignedPrefix_sound:
  assumes "unsignedPrefix s = Some (v, r)"
  shows "\<exists>p. s = p @ r \<and> StrUnsignedDecimalLiteral p v"
proof (cases "take 8 s = ''Infinity''")
  case True
  then have "s = ''Infinity'' @ r" "v = PosInf"
    using assms append_take_drop_id [of 8 s] by (auto simp: unsignedPrefix_def)
  then show ?thesis using lit_infinity by blast
next
  case False
  define ip where "ip = takeWhile isDecimalDigit s"
  define r1 where "r1 = dropWhile isDecimalDigit s"
  define dot where "dot = (r1 \<noteq> [] \<and> hd r1 = CHR ''.'')"
  define fp where "fp = (if dot then takeWhile isDecimalDigit (tl r1) else [])"
  define r2 where "r2 = (if dot then dropWhile isDecimalDigit (tl r1) else r1)"
  obtain e r3 where ex: "exponentPrefix r2 = (e, r3)" by (cases "exponentPrefix r2")
  have ne: "\<not> (ip = [] \<and> fp = [])" and v: "v = fl (decimalValue ip fp e)" and r3: "r3 = r"
    using assms False ex
    by (auto simp: unsignedPrefix_def Let_def ip_def [symmetric] r1_def [symmetric]
        dot_def [symmetric] fp_def [symmetric] r2_def [symmetric] split: if_splits)
  obtain ex where r2: "r2 = ex @ r" and oe: "OptExponentPart ex e"
    using exponentPrefix_sound [OF ex] r3 by auto
  have s: "s = ip @ r1" by (simp add: ip_def r1_def)
  have dip: "list_all isDecimalDigit ip" and dfp: "list_all isDecimalDigit fp"
    by (simp_all add: ip_def fp_def takeWhile_digits)
  show ?thesis
  proof (cases dot)
    case True
    then have "r1 = CHR ''.'' # fp @ r2"
      by (cases r1) (auto simp: dot_def fp_def r2_def)
    then have s': "s = ip @ CHR ''.'' # fp @ ex @ r" using s r2 by simp
    show ?thesis
    proof (cases "ip = []")
      case True
      then have "isDigits fp" using ne dfp by (simp add: isDigits_def)
      from lit_dot [OF this oe] show ?thesis using s' v True
        by (intro exI [of _ "CHR ''.'' # fp @ ex"]) simp
    next
      case False
      then have "isDigits ip" using dip by (simp add: isDigits_def)
      from lit_int_dot [OF this dfp oe] show ?thesis using s' v
        by (intro exI [of _ "ip @ CHR ''.'' # fp @ ex"]) simp
    qed
  next
    case False
    then have fp: "fp = []" and "r2 = r1" by (simp_all add: fp_def r2_def)
    then have s': "s = ip @ ex @ r" using s r2 by simp
    have "isDigits ip" using ne fp dip by (simp add: isDigits_def)
    from lit_int [OF this oe] show ?thesis using s' v fp
      by (intro exI [of _ "ip @ ex"]) simp
  qed
qed

lemma signedPrefix_sound:
  assumes "signedPrefix t = Some (v, r)"
  shows "\<exists>p. t = p @ r \<and> StrDecimalLiteral p v"
proof (cases t)
  case Nil
  then show ?thesis using assms by (simp add: signedPrefix_def)
next
  case (Cons c t')
  consider (plus) "c = CHR ''+''" | (minus) "c = CHR ''-''" | (other) "c \<noteq> CHR ''+''" "c \<noteq> CHR ''-''"
    by blast
  then show ?thesis
  proof cases
    case plus
    then have "unsignedPrefix t' = Some (v, r)" using assms Cons by (simp add: signedPrefix_def)
    from unsignedPrefix_sound [OF this] obtain p where "t' = p @ r" "StrUnsignedDecimalLiteral p v"
      by blast
    then show ?thesis using Cons plus lit_plus
      by (intro exI [of _ "CHR ''+'' # p"]) simp
  next
    case minus
    then obtain u where u: "unsignedPrefix t' = Some (u, r)" and v: "v = jsneg u"
      using assms Cons by (auto simp: signedPrefix_def)
    from unsignedPrefix_sound [OF u] obtain p where "t' = p @ r" "StrUnsignedDecimalLiteral p u"
      by blast
    then show ?thesis using Cons minus v lit_minus
      by (intro exI [of _ "CHR ''-'' # p"]) simp
  next
    case other
    then have "unsignedPrefix t = Some (v, r)" using assms Cons by (simp add: signedPrefix_def)
    from unsignedPrefix_sound [OF this] show ?thesis using lit_unsigned by blast
  qed
qed

lemma parseFloat_no_prefix:
  assumes "\<not> hasNumericPrefix s"
  shows "parseFloat (Some s) = NaN"
proof (cases "signedPrefix (dropWhile isWhiteSpace s)")
  case None
  then show ?thesis by (simp add: parseFloat_def attrToString_def)
next
  case (Some a)
  then obtain v r where "signedPrefix (dropWhile isWhiteSpace s) = Some (v, r)" by (cases a) simp
  from signedPrefix_sound [OF this] have "hasNumericPrefix s"
    by (auto simp: hasNumericPrefix_def)
  with assms show ?thesis by simp
qed

lemma OptExponentPart_head:
  assumes "OptExponentPart ex e"
  shows "ex = [] \<or> isExponentIndicator (hd ex)"
  using assms by (auto elim!: OptExponentPart.cases ExponentPart.cases)

lemma exponentPrefix_complete:
  assumes "OptExponentPart ex e" "endsLiteral r"
  shows "exponentPrefix (ex @ r) = (e, r)"
  using assms(1)
proof cases
  case exp_absent
  show ?thesis
  proof (cases r)
    case Nil
    then show ?thesis using exp_absent by (simp add: exponentPrefix_def)
  next
    case (Cons c r')
    show ?thesis
    proof (cases "isExponentIndicator c")
      case False
      then show ?thesis using exp_absent Cons
        by (simp add: exponentPrefix_def isExponentIndicator_def)
    next
      case True
      define r'' where
        "r'' = (if r' \<noteq> [] \<and> (hd r' = CHR ''+'' \<or> hd r' = CHR ''-'') then tl r' else r')"
      have "\<not> startsExponentPart r"
        using assms(2) Cons by (simp add: endsLiteral_def)
      then have "r'' = [] \<or> \<not> isDecimalDigit (hd r'')"
        using True Cons
        by (cases r'; cases "tl r'") (auto simp: startsExponentPart_def r''_def)
      then have "takeWhile isDecimalDigit r'' = []"
        by (cases r'') auto
      then show ?thesis using exp_absent Cons True
        by (simp add: exponentPrefix_def isExponentIndicator_def Let_def r''_def [symmetric])
    qed
  qed
next
  case exp_present
  have nd: "r = [] \<or> \<not> isDecimalDigit (hd r)"
    using assms(2) by (auto simp: endsLiteral_def)
  from exp_present show ?thesis
  proof cases
    case (exp_plain c ds)
    then have d: "list_all isDecimalDigit ds" "ds \<noteq> []" "isDecimalDigit (hd ds)"
      by (cases ds; simp add: isDigits_def)+
    then have "hd (ds @ r) \<noteq> CHR ''+''" "hd (ds @ r) \<noteq> CHR ''-''" by auto
    then show ?thesis using exp_plain d span_digits [OF d(1) nd]
      by (auto simp: exponentPrefix_def isExponentIndicator_def Let_def)
  next
    case (exp_plus c ds)
    then have d: "list_all isDecimalDigit ds" "ds \<noteq> []"
      by (simp_all add: isDigits_def)
    then show ?thesis using exp_plus span_digits [OF d(1) nd]
      by (auto simp: exponentPrefix_def isExponentIndicator_def Let_def)
  next
    case (exp_minus c ds)
    then have d: "list_all isDecimalDigit ds" "ds \<noteq> []"
      by (simp_all add: isDigits_def)
    then show ?thesis using exp_minus span_digits [OF d(1) nd]
      by (auto simp: exponentPrefix_def isExponentIndicator_def Let_def)
  qed
qed

lemma exponent_then_rest:
  assumes "OptExponentPart ex e" "endsLiteral r"
  shows "ex @ r = [] \<or> \<not> (isDecimalDigit (hd (ex @ r)) \<or> hd (ex @ r) = CHR ''.'')"
  using OptExponentPart_head [OF assms(1)] assms(2)
  by (cases ex) (auto simp: endsLiteral_def isExponentIndicator_def)

lemma unsignedPrefix_complete:
  assumes "StrUnsignedDecimalLiteral p v" "endsLiteral r"
  shows "unsignedPrefix (p @ r) = Some (v, r)"
  using assms(1)
proof cases
  case lit_infinity
  then show ?thesis by (simp add: unsignedPrefix_def)
next
  case (lit_int_dot ip fp ex e)
  then have ip: "list_all isDecimalDigit ip" "ip \<noteq> []" "isDecimalDigit (hd ip)"
    by (cases ip; simp add: isDigits_def)+
  have inf: "take 8 (p @ r) \<noteq> ''Infinity''"
    using ip lit_int_dot by (cases ip) auto
  have a: "takeWhile isDecimalDigit (p @ r) = ip"
          "dropWhile isDecimalDigit (p @ r) = CHR ''.'' # fp @ ex @ r"
    using span_digits [OF ip(1), of "CHR ''.'' # fp @ ex @ r"] lit_int_dot by simp_all
  have b: "takeWhile isDecimalDigit (fp @ ex @ r) = fp"
          "dropWhile isDecimalDigit (fp @ ex @ r) = ex @ r"
    using span_digits [OF lit_int_dot(4), of "ex @ r"] exponent_then_rest [OF lit_int_dot(5) assms(2)]
    by auto
  show ?thesis
    using inf a b ip exponentPrefix_complete [OF lit_int_dot(5) assms(2)] lit_int_dot
    by (simp add: unsignedPrefix_def Let_def)
next
  case (lit_dot fp ex e)
  then have fp: "list_all isDecimalDigit fp" "fp \<noteq> []"
    by (simp_all add: isDigits_def)
  have b: "takeWhile isDecimalDigit (fp @ ex @ r) = fp"
          "dropWhile isDecimalDigit (fp @ ex @ r) = ex @ r"
    using span_digits [OF fp(1), of "ex @ r"] exponent_then_rest [OF lit_dot(4) assms(2)]
    by auto
  show ?thesis
    using b fp exponentPrefix_complete [OF lit_dot(4) assms(2)] lit_dot
    by (simp add: unsignedPrefix_def Let_def)
next
  case (lit_int ip ex e)
  then have ip: "list_all isDecimalDigit ip" "ip \<noteq> []" "isDecimalDigit (hd ip)"
    by (cases ip; simp add: isDigits_def)+
  have inf: "take 8 (p @ r) \<noteq> ''Infinity''"
    using ip lit_int by (cases ip) auto
  have nd: "ex @ r = [] \<or> \<not> (isDecimalDigit (hd (ex @ r)) \<or> hd (ex @ r) = CHR ''.'')"
    using exponent_then_rest [OF lit_int(4) assms(2)] .
  have a: "takeWhile isDecimalDigit (p @ r) = ip"
          "dropWhile isDecimalDigit (p @ r) = ex @ r"
    using span_digits [OF ip(1), of "ex @ r"] nd lit_int by auto
  show ?thesis
    using inf a nd ip exponentPrefix_complete [OF lit_int(4) assms(2)] lit_int
    by (auto simp: unsignedPrefix_def Let_def)
qed

lemma unsigned_head:
  assumes "StrUnsignedDecimalLiteral p v"
  shows "p \<noteq> [] \<and> (hd p = CHR ''I'' \<or> hd p = CHR ''.'' \<or> isDecimalDigit (hd p))"
  using assms
proof cases
  case (lit_int_dot ip fp ex e)
  then show ?thesis by (cases ip) (auto simp: isDigits_def)
next
  case (lit_int ip ex e)
  then show ?thesis by (cases ip) (auto simp: isDigits_def)
qed auto

lemma signedPrefix_complete:
  assumes "StrDecimalLiteral p v" "endsLiteral r"
  shows "signedPrefix (p @ r) = Some (v, r)"
  using assms(1)
proof cases
  case lit_unsigned
  from unsigned_head [OF this] have "hd p \<noteq> CHR ''+''" "hd p \<noteq> CHR ''-''" "p \<noteq> []"
    by auto
  then show ?thesis using unsignedPrefix_complete [OF lit_unsigned assms(2)]
    by (cases p) (auto simp: signedPrefix_def)
next
  case (lit_plus q)
  then show ?thesis using unsignedPrefix_complete [OF lit_plus(2) assms(2)]
    by (simp add: signedPrefix_def)
next
  case (lit_minus q u)
  then show ?thesis using unsignedPrefix_complete [OF lit_minus(3) assms(2)]
    by (simp add: signedPrefix_def)
qed

lemma jsneg_NaN_iff [simp]:
  "jsneg v = NaN \<longleftrightarrow> v = NaN" "NaN = jsneg v \<longleftrightarrow> v = NaN"
  by (cases v; simp)+

lemma literal_not_NaN: "StrDecimalLiteral p v \<Longrightarrow> v \<noteq> NaN"
  by (auto elim!: StrDecimalLiteral.cases StrUnsignedDecimalLiteral.cases)

lemma literal_head:
  assumes "StrDecimalLiteral p v"
  shows "p \<noteq> [] \<and> (hd p = CHR ''+'' \<or> hd p = CHR ''-'' \<or> hd p = CHR ''I'' \<or> hd p = CHR ''.'' \<or>
           isDecimalDigit (hd p))"
  using assms by cases (use unsigned_head in auto)

lemma js_or_zero: "js_or v (Num 0) = (if v = NaN then Num 0 else v)"
  by (cases v) (simp_all add: js_or_def)

lemma parseFloat_prefix:
  assumes "dropWhile isWhiteSpace s = p @ r" "StrDecimalLiteral p v" "endsLiteral r"
  shows "parseFloat (Some s) = v"
  using signedPrefix_complete [OF assms(2,3)] assms(1)
  by (simp add: parseFloat_def attrToString_def)

lemma takeWhile_digit_head:
  "s \<noteq> [] \<Longrightarrow> isDecimalDigit (hd s) \<Longrightarrow> takeWhile isDecimalDigit s \<noteq> []"
  by (cases s) auto

lemma unsignedPrefix_finds:
  assumes "StrUnsignedDecimalLiteral p v"
  shows "unsignedPrefix (p @ r) \<noteq> None"
  using assms
proof cases
  case lit_infinity
  then show ?thesis by (simp add: unsignedPrefix_def)
next
  case (lit_int_dot ip fp ex e)
  then have "takeWhile isDecimalDigit (p @ r) \<noteq> []"
    by (intro takeWhile_digit_head; cases ip; simp add: isDigits_def)
  then show ?thesis
    by (simp add: unsignedPrefix_def Let_def split: prod.splits)
next
  case (lit_int ip ex e)
  then have "takeWhile isDecimalDigit (p @ r) \<noteq> []"
    by (intro takeWhile_digit_head; cases ip; simp add: isDigits_def)
  then show ?thesis
    by (simp add: unsignedPrefix_def Let_def split: prod.splits)
next
  case (lit_dot fp ex e)
  then have "takeWhile isDecimalDigit (fp @ ex @ r) \<noteq> []"
    by (intro takeWhile_digit_head; cases fp; simp add: isDigits_def)
  then show ?thesis using lit_dot
    by (simp add: unsignedPrefix_def Let_def split: prod.splits)
qed

lemma signedPrefix_finds:
  assumes "StrDecimalLiteral p v"
  shows "signedPrefix (p @ r) \<noteq> None"
  using assms
proof cases
  case lit_unsigned
  from unsigned_head [OF this] have "hd p \<noteq> CHR ''+''" "hd p \<noteq> CHR ''-''" "p \<noteq> []"
    by auto
  then show ?thesis using unsignedPrefix_finds [OF lit_unsigned, of r]
    by (cases p) (auto simp: signedPrefix_def)
next
  case (lit_plus q)
  then show ?thesis using unsignedPrefix_finds [OF lit_plus(2), of r]
    by (simp add: signedPrefix_def)
next
  case (lit_minus q u)
  then show ?thesis using unsignedPrefix_finds [OF lit_minus(3), of r]
    by (simp add: signedPrefix_def)
qed

lemma parseFloat_NaN_iff: "parseFloat (Some s) = NaN \<longleftrightarrow> \<not> hasNumericPrefix s"
proof
  assume n: "parseFloat (Some s) = NaN"
  show "\<not> hasNumericPrefix s"
  proof
    assume "hasNumericPrefix s"
    then obtain p r v where t: "dropWhile isWhiteSpace s = p @ r" and l: "StrDecimalLiteral p v"
      by (auto simp: hasNumericPrefix_def)
    from signedPrefix_finds [OF l, of r] obtain u r' where
      f: "signedPrefix (dropWhile isWhiteSpace s) = Some (u, r')"
      using t by auto
    from signedPrefix_sound [OF f] literal_not_NaN have "u \<noteq> NaN" by blast
    then show False using n f by (simp add: parseFloat_def attrToString_def)
  qed
next
  assume "\<not> hasNumericPrefix s"
  then show "parseFloat (Some s) = NaN" by (rule parseFloat_no_prefix)
qed

subsection \<open>The longest prefix\<close>

lemma dropWhile_digits_append:
  "list_all isDecimalDigit ds \<Longrightarrow> dropWhile isDecimalDigit (ds @ r) = dropWhile isDecimalDigit r"
  by (simp add: list_all_iff dropWhile_append2)

lemma exponentPrefix_length: "length (snd (exponentPrefix r)) \<le> length r"
proof (cases r)
  case Nil
  then show ?thesis by (simp add: exponentPrefix_def)
next
  case (Cons c r')
  have "length (dropWhile isDecimalDigit (tl r')) \<le> length r'"
    using length_dropWhile_le [of isDecimalDigit "tl r'"] by (cases r') auto
  then show ?thesis using Cons length_dropWhile_le [of isDecimalDigit r']
    by (auto simp: exponentPrefix_def Let_def le_Suc_eq)
qed

lemma exponentPrefix_consumes:
  assumes "OptExponentPart ex e"
  shows "length (snd (exponentPrefix (ex @ r))) \<le> length r"
  using assms
proof cases
  case exp_absent
  then show ?thesis using exponentPrefix_length [of r] by simp
next
  case exp_present
  then show ?thesis
  proof cases
    case (exp_plain c ds)
    then have d: "list_all isDecimalDigit ds" "ds \<noteq> []" "isDecimalDigit (hd ds)"
      by (cases ds; simp add: isDigits_def)+
    then have h: "hd (ds @ r) \<noteq> CHR ''+''" "hd (ds @ r) \<noteq> CHR ''-''" by auto
    have t: "takeWhile isDecimalDigit (ds @ r) \<noteq> []"
      using d by (cases ds) auto
    show ?thesis using exp_plain d h t dropWhile_digits_append [OF d(1), of r]
        length_dropWhile_le [of isDecimalDigit r]
      by (auto simp: exponentPrefix_def isExponentIndicator_def Let_def)
  next
    case (exp_plus c ds)
    then have d: "list_all isDecimalDigit ds" "ds \<noteq> []"
      by (simp_all add: isDigits_def)
    have t: "takeWhile isDecimalDigit (ds @ r) \<noteq> []"
      using d by (cases ds) auto
    show ?thesis using exp_plus d t dropWhile_digits_append [OF d(1), of r]
        length_dropWhile_le [of isDecimalDigit r]
      by (auto simp: exponentPrefix_def isExponentIndicator_def Let_def)
  next
    case (exp_minus c ds)
    then have d: "list_all isDecimalDigit ds" "ds \<noteq> []"
      by (simp_all add: isDigits_def)
    have t: "takeWhile isDecimalDigit (ds @ r) \<noteq> []"
      using d by (cases ds) auto
    show ?thesis using exp_minus d t dropWhile_digits_append [OF d(1), of r]
        length_dropWhile_le [of isDecimalDigit r]
      by (auto simp: exponentPrefix_def isExponentIndicator_def Let_def)
  qed
qed

text \<open>After the digits of a fraction: the exponent of the literal, or more digits first.\<close>

lemma fraction_consumes:
  assumes "list_all isDecimalDigit fp" "OptExponentPart ex e"
  shows "length (snd (exponentPrefix (dropWhile isDecimalDigit (fp @ ex @ r)))) \<le> length r"
proof (cases "ex = []")
  case True
  have "length (snd (exponentPrefix (dropWhile isDecimalDigit r))) \<le> length (dropWhile isDecimalDigit r)"
    by (rule exponentPrefix_length)
  also have "\<dots> \<le> length r" by (rule length_dropWhile_le)
  finally show ?thesis using True assms(1) by (simp add: dropWhile_digits_append)
next
  case False
  then have "\<not> isDecimalDigit (hd (ex @ r))" "ex @ r \<noteq> []"
    using OptExponentPart_head [OF assms(2)] by (auto simp: isExponentIndicator_def)
  then have "dropWhile isDecimalDigit (ex @ r) = ex @ r"
    by (cases "ex @ r") auto
  then show ?thesis using assms(1) exponentPrefix_consumes [OF assms(2), of r]
    by (simp add: dropWhile_digits_append)
qed

lemma unsignedPrefix_consumes:
  assumes "StrUnsignedDecimalLiteral p v" "unsignedPrefix (p @ r) = Some (u, r0)"
  shows "length r0 \<le> length r"
  using assms(1)
proof cases
  case lit_infinity
  then show ?thesis using assms(2) by (simp add: unsignedPrefix_def)
next
  case (lit_int_dot ip fp ex e)
  then have ip: "list_all isDecimalDigit ip" "ip \<noteq> []" "isDecimalDigit (hd ip)"
    by (cases ip; simp add: isDigits_def)+
  have inf: "take 8 (p @ r) \<noteq> ''Infinity''"
    using ip lit_int_dot by (cases ip) auto
  have a: "takeWhile isDecimalDigit (p @ r) = ip"
          "dropWhile isDecimalDigit (p @ r) = CHR ''.'' # fp @ ex @ r"
    using span_digits [OF ip(1), of "CHR ''.'' # fp @ ex @ r"] lit_int_dot by simp_all
  show ?thesis
    using assms(2) inf a ip fraction_consumes [OF lit_int_dot(4,5), of r]
    by (auto simp: unsignedPrefix_def Let_def split: prod.splits)
next
  case (lit_dot fp ex e)
  then have fp: "list_all isDecimalDigit fp" "fp \<noteq> []"
    by (simp_all add: isDigits_def)
  show ?thesis
    using assms(2) lit_dot fraction_consumes [OF fp(1) lit_dot(4), of r]
    by (auto simp: unsignedPrefix_def Let_def split: prod.splits if_splits)
next
  case (lit_int ip ex e)
  then have ip: "list_all isDecimalDigit ip" "ip \<noteq> []" "isDecimalDigit (hd ip)"
    by (cases ip; simp add: isDigits_def)+
  have inf: "take 8 (p @ r) \<noteq> ''Infinity''"
    using ip lit_int by (cases ip) auto
  define r1 where "r1 = dropWhile isDecimalDigit (ex @ r)"
  have r1: "dropWhile isDecimalDigit (p @ r) = r1"
    using lit_int ip by (simp add: r1_def dropWhile_digits_append)
  have tk: "takeWhile isDecimalDigit (p @ r) \<noteq> []"
    using lit_int ip by (cases ip) auto
  show ?thesis
  proof (cases "ex = []")
    case False
    then have "\<not> isDecimalDigit (hd (ex @ r))" "ex @ r \<noteq> []" "hd (ex @ r) \<noteq> CHR ''.''"
      using OptExponentPart_head [OF lit_int(4)] by (auto simp: isExponentIndicator_def)
    then have "r1 = ex @ r" "\<not> (r1 \<noteq> [] \<and> hd r1 = CHR ''.'')"
      by (cases "ex @ r"; auto simp: r1_def)+
    then show ?thesis
      using assms(2) inf r1 tk exponentPrefix_consumes [OF lit_int(4), of r]
      by (auto simp: unsignedPrefix_def Let_def split: prod.splits)
  next
    case True
    have l1: "length r1 \<le> length r" using True by (simp add: r1_def length_dropWhile_le)
    have "length (snd (exponentPrefix r1)) \<le> length r1" by (rule exponentPrefix_length)
    moreover have "length (snd (exponentPrefix (dropWhile isDecimalDigit (tl r1)))) \<le> length r1"
    proof -
      have "length (snd (exponentPrefix (dropWhile isDecimalDigit (tl r1)))) \<le>
            length (dropWhile isDecimalDigit (tl r1))" by (rule exponentPrefix_length)
      also have "\<dots> \<le> length (tl r1)" by (rule length_dropWhile_le)
      also have "\<dots> \<le> length r1" by simp
      finally show ?thesis .
    qed
    ultimately show ?thesis
      using assms(2) inf r1 tk l1
      by (auto simp: unsignedPrefix_def Let_def split: prod.splits if_splits)
  qed
qed

lemma signedPrefix_consumes:
  assumes "StrDecimalLiteral p v" "signedPrefix (p @ r) = Some (u, r0)"
  shows "length r0 \<le> length r"
  using assms(1)
proof cases
  case lit_unsigned
  from unsigned_head [OF this] have "hd p \<noteq> CHR ''+''" "hd p \<noteq> CHR ''-''" "p \<noteq> []"
    by auto
  then have "unsignedPrefix (p @ r) = Some (u, r0)"
    using assms(2) by (cases p) (auto simp: signedPrefix_def)
  from unsignedPrefix_consumes [OF lit_unsigned this] show ?thesis .
next
  case (lit_plus q)
  then have "unsignedPrefix (q @ r) = Some (u, r0)"
    using assms(2) by (simp add: signedPrefix_def)
  from unsignedPrefix_consumes [OF lit_plus(2) this] show ?thesis .
next
  case (lit_minus q w)
  then obtain u' where "unsignedPrefix (q @ r) = Some (u', r0)"
    using assms(2) by (auto simp: signedPrefix_def)
  from unsignedPrefix_consumes [OF lit_minus(3) this] show ?thesis .
qed

lemma literal_value_unique:
  assumes "StrDecimalLiteral p v" "StrDecimalLiteral p v'"
  shows "v = v'"
  using signedPrefix_complete [OF assms(1), of "[]"] signedPrefix_complete [OF assms(2), of "[]"]
  by (simp add: endsLiteral_def)

text \<open>The scanner returns the value of the longest prefix that is a literal.\<close>

lemma parseFloat_longest_prefix:
  assumes t: "dropWhile isWhiteSpace s = p @ r" and l: "StrDecimalLiteral p v"
    and m: "\<And>p' r' v'. p @ r = p' @ r' \<Longrightarrow> StrDecimalLiteral p' v' \<Longrightarrow> length p' \<le> length p"
  shows "parseFloat (Some s) = v"
proof -
  from signedPrefix_finds [OF l, of r] obtain v0 r0 where f: "signedPrefix (p @ r) = Some (v0, r0)"
    by auto
  from signedPrefix_sound [OF f] obtain p0 where p0: "p @ r = p0 @ r0" "StrDecimalLiteral p0 v0"
    by blast
  have "length r0 \<le> length r" by (rule signedPrefix_consumes [OF l f])
  moreover have "length p0 \<le> length p" by (rule m [OF p0])
  moreover have "length p + length r = length p0 + length r0"
    using p0(1) by (metis length_append)
  ultimately have "length p0 = length p" by linarith
  then have "p0 = p" using p0(1) by (metis append_eq_append_conv)
  then have "v0 = v" using literal_value_unique [OF p0(2)] l by simp
  then show ?thesis using f t by (simp add: parseFloat_def attrToString_def)
qed

section \<open>What a pass reads and writes\<close>

lemma parallaxElement_fields [simp]:
  "data_depth (parallaxElement sy v el) = data_depth el"
  "rect_top (parallaxElement sy v el) = rect_top el"
  "offsetHeight (parallaxElement sy v el) = offsetHeight el"
  by (simp_all add: parallaxElement_def)

lemma style_transform_update_reads [simp]:
  "depth (el\<lparr>style_transform := t\<rparr>) = depth el"
  "elementTop sy (el\<lparr>style_transform := t\<rparr>) = elementTop sy el"
  "isInViewport sy v (el\<lparr>style_transform := t\<rparr>) = isInViewport sy v el"
  by (simp_all add: depth_def elementTop_def isInViewport_def)

lemma parallaxElement_reads [simp]:
  "depth (parallaxElement sy v el) = depth el"
  "elementTop sy' (parallaxElement sy v el) = elementTop sy' el"
  "isInViewport sy' v' (parallaxElement sy v el) = isInViewport sy' v' el"
  by (simp_all add: parallaxElement_def)

lemma parallaxElement_twice: "parallaxElement sy v (parallaxElement sy v el) = parallaxElement sy v el"
  by (simp add: parallaxElement_def)

lemma forEach_node:
  assumes "\<And>x. f (f x) = f x"
  shows "fold (\<lambda>i nd. nd(i := f (nd i))) js nd j = (if j \<in> set js then f (nd j) else nd j)"
  using assms by (induction js arbitrary: nd) auto

lemma updateParallax_node:
  "node (page (updateParallax w)) j =
     (if j \<in> set (parallaxElements w)
      then parallaxElement (scrollY (page w)) (innerHeight (page w)) (node (page w) j)
      else node (page w) j)"
  by (simp add: updateParallax_def Let_def forEach_node parallaxElement_twice)

lemma updateParallax_fields [simp]:
  "scrollY (page (updateParallax w)) = scrollY (page w)"
  "innerHeight (page (updateParallax w)) = innerHeight (page w)"
  "document_nodes (page (updateParallax w)) = document_nodes (page w)"
  "reduced_motion (updateParallax w) = reduced_motion w"
  "prefersReducedMotion (updateParallax w) = prefersReducedMotion w"
  "parallaxElements (updateParallax w) = parallaxElements w"
  "ticking (updateParallax w) = False"
  "lastScrollY (updateParallax w) = lastScrollY w"
  "resizeTimeout (updateParallax w) = resizeTimeout w"
  "scroll_listener (updateParallax w) = scroll_listener w"
  "resize_listener (updateParallax w) = resize_listener w"
  "frame_requests (updateParallax w) = frame_requests w"
  "timers (updateParallax w) = timers w"
  "next_timer (updateParallax w) = next_timer w"
  "now (updateParallax w) = now w"
  "passes (updateParallax w) = passes w @ [now w]"
  by (simp_all add: updateParallax_def Let_def)

section \<open>What the handlers and the host do to the window\<close>

lemma requestTick_fields [simp]:
  "page (requestTick w) = page w"
  "reduced_motion (requestTick w) = reduced_motion w"
  "prefersReducedMotion (requestTick w) = prefersReducedMotion w"
  "parallaxElements (requestTick w) = parallaxElements w"
  "ticking (requestTick w) = True"
  "resizeTimeout (requestTick w) = resizeTimeout w"
  "scroll_listener (requestTick w) = scroll_listener w"
  "resize_listener (requestTick w) = resize_listener w"
  "frame_requests (requestTick w) = (if ticking w then frame_requests w else frame_requests w + 1)"
  "timers (requestTick w) = timers w"
  "next_timer (requestTick w) = next_timer w"
  "now (requestTick w) = now w"
  "passes (requestTick w) = passes w"
  by (simp_all add: requestTick_def)

lemma onResize_fields [simp]:
  "page (onResize w) = page w"
  "reduced_motion (onResize w) = reduced_motion w"
  "prefersReducedMotion (onResize w) = prefersReducedMotion w"
  "parallaxElements (onResize w) = parallaxElements w"
  "ticking (onResize w) = ticking w"
  "resizeTimeout (onResize w) = Some (next_timer w)"
  "scroll_listener (onResize w) = scroll_listener w"
  "resize_listener (onResize w) = resize_listener w"
  "frame_requests (onResize w) = frame_requests w"
  "timers (onResize w) =
     (case resizeTimeout w of None \<Rightarrow> timers w
      | Some i \<Rightarrow> filter (\<lambda>t. fst t \<noteq> i) (timers w)) @ [(next_timer w, now w + 150)]"
  "next_timer (onResize w) = next_timer w + 1"
  "now (onResize w) = now w"
  "passes (onResize w) = passes w"
  by (simp_all add: onResize_def setTimeout_def clearTimeout_def split: option.splits)

lemma fire_fields [simp]:
  "scrollY (page (fire t w)) = scrollY (page w)"
  "innerHeight (page (fire t w)) = innerHeight (page w)"
  "document_nodes (page (fire t w)) = document_nodes (page w)"
  "reduced_motion (fire t w) = reduced_motion w"
  "prefersReducedMotion (fire t w) = prefersReducedMotion w"
  "parallaxElements (fire t w) = parallaxElements w"
  "ticking (fire t w) = False"
  "resizeTimeout (fire t w) = resizeTimeout w"
  "scroll_listener (fire t w) = scroll_listener w"
  "resize_listener (fire t w) = resize_listener w"
  "frame_requests (fire t w) = frame_requests w"
  "timers (fire t w) = filter (\<lambda>u. fst u \<noteq> fst t) (timers w)"
  "next_timer (fire t w) = next_timer w"
  "now (fire t w) = max (now w) (snd t)"
  "passes (fire t w) = passes w @ [max (now w) (snd t)]"
  by (simp_all add: fire_def)

lemma run_simps [simp]:
  "run [] w = w"
  "run (e # evs) w = run evs (step e w)"
  "run (evs @ evs') w = run evs' (run evs w)"
  by (simp_all add: run_def)

lemma funpow_updateParallax_fields [simp]:
  "resizeTimeout ((updateParallax ^^ n) w) = resizeTimeout w"
  "timers ((updateParallax ^^ n) w) = timers w"
  "scroll_listener ((updateParallax ^^ n) w) = scroll_listener w"
  "resize_listener ((updateParallax ^^ n) w) = resize_listener w"
  "frame_requests ((updateParallax ^^ n) w) = frame_requests w"
  "prefersReducedMotion ((updateParallax ^^ n) w) = prefersReducedMotion w"
  "reduced_motion ((updateParallax ^^ n) w) = reduced_motion w"
  "now ((updateParallax ^^ n) w) = now w"
  "next_timer ((updateParallax ^^ n) w) = next_timer w"
  "passes ((updateParallax ^^ n) w) = passes w @ replicate n (now w)"
  by (induction n) (simp_all add: replicate_append_same)

lemma fold_fire_fields [simp]:
  "resizeTimeout (fold fire ts w) = resizeTimeout w"
  "scroll_listener (fold fire ts w) = scroll_listener w"
  "resize_listener (fold fire ts w) = resize_listener w"
  "frame_requests (fold fire ts w) = frame_requests w"
  "prefersReducedMotion (fold fire ts w) = prefersReducedMotion w"
  "reduced_motion (fold fire ts w) = reduced_motion w"
  "next_timer (fold fire ts w) = next_timer w"
  by (induction ts arbitrary: w) simp_all

lemma fold_fire_timers: "set (timers (fold fire ts w)) \<subseteq> set (timers w)"
  by (induction ts arbitrary: w) (auto, fastforce)

lemma elapse_fields [simp]:
  "resizeTimeout (elapse n w) = resizeTimeout w"
  "scroll_listener (elapse n w) = scroll_listener w"
  "resize_listener (elapse n w) = resize_listener w"
  "frame_requests (elapse n w) = frame_requests w"
  "prefersReducedMotion (elapse n w) = prefersReducedMotion w"
  "reduced_motion (elapse n w) = reduced_motion w"
  "next_timer (elapse n w) = next_timer w"
  by (simp_all add: elapse_def Let_def)

lemma elapse_timers: "set (timers (elapse n w)) \<subseteq> set (timers w)"
  using fold_fire_timers by (simp add: elapse_def Let_def)

lemma elapse_none_due:
  assumes "\<forall>t\<in>set (timers w). now w + n < snd t"
  shows "elapse n w = w\<lparr>now := now w + n\<rparr>"
proof -
  have "filter (\<lambda>t. snd t \<le> now w + n) (timers w) = []"
    using assms by (auto simp: filter_empty_conv)
  then show ?thesis by (simp add: elapse_def Let_def)
qed

lemma elapse_one_due:
  assumes "timers w = [t]" "snd t \<le> now w + n"
  shows "elapse n w = (fire t w)\<lparr>now := now w + n\<rparr>"
  using assms by (simp add: elapse_def Let_def)

subsection \<open>The pending timers\<close>

lemma timer_inv_step: "timer_inv w \<Longrightarrow> timer_inv (step e w)"
proof (cases e)
  case Resize
  assume "timer_inv w"
  then show ?thesis using Resize
    by (auto simp: timer_inv_def list_all_iff filter_empty_conv split: option.splits)
next
  case (Elapse n)
  assume "timer_inv w"
  then show ?thesis using Elapse elapse_timers [of n w]
    by (auto simp: timer_inv_def list_all_iff)
qed (auto simp: timer_inv_def)

lemma timer_inv_run: "timer_inv w \<Longrightarrow> timer_inv (run evs w)"
  by (induction evs arbitrary: w) (simp_all add: timer_inv_step)

lemma initParallax_timers [simp]: "timers (initParallax w) = timers w"
  by (simp add: initParallax_def Let_def)

lemma timer_inv_boot: "timer_inv (boot p rm)"
  by (simp add: boot_def timer_inv_def load_script_def fresh_def)

lemma onResize_armed:
  assumes "timer_inv w"
  shows "timers (onResize w) = [(next_timer w, now w + 150)]"
proof (cases "resizeTimeout w")
  case None
  with assms have "timers w = []"
    by (cases "timers w") (simp_all add: timer_inv_def)
  with None show ?thesis by simp
next
  case (Some i)
  with assms have "filter (\<lambda>t. fst t \<noteq> i) (timers w) = []"
    by (auto simp: timer_inv_def list_all_iff filter_empty_conv)
  with Some show ?thesis by simp
qed

lemma burst_tail:
  assumes "resize_listener w" "timers w = [(i, now w + 150)]" "resizeTimeout w = Some i"
    "\<forall>g\<in>set gaps. g < 150" "150 \<le> T"
  shows "passes (run (concat (map (\<lambda>g. [Elapse g, Resize]) gaps) @ [Elapse T]) w) =
           passes w @ [now w + sum_list gaps + 150] \<and>
         timers (run (concat (map (\<lambda>g. [Elapse g, Resize]) gaps) @ [Elapse T]) w) = [] \<and>
         now (run (concat (map (\<lambda>g. [Elapse g, Resize]) gaps) @ [Elapse T]) w) =
           now w + sum_list gaps + T"
  using assms
proof (induction gaps arbitrary: w i)
  case Nil
  then have "elapse T w = (fire (i, now w + 150) w)\<lparr>now := now w + T\<rparr>"
    by (intro elapse_one_due) simp_all
  then show ?case using Nil by simp
next
  case (Cons g gaps)
  let ?w1 = "w\<lparr>now := now w + g\<rparr>"
  let ?w2 = "onResize ?w1"
  have e: "elapse g w = ?w1"
    using Cons.prems by (intro elapse_none_due) simp
  have inv: "timer_inv ?w1"
    using Cons.prems by (simp add: timer_inv_def)
  have t2: "timers ?w2 = [(next_timer ?w1, now ?w2 + 150)]"
    using onResize_armed [OF inv] by simp
  have "passes (run (concat (map (\<lambda>g. [Elapse g, Resize]) gaps) @ [Elapse T]) ?w2) =
           passes ?w2 @ [now ?w2 + sum_list gaps + 150] \<and>
         timers (run (concat (map (\<lambda>g. [Elapse g, Resize]) gaps) @ [Elapse T]) ?w2) = [] \<and>
         now (run (concat (map (\<lambda>g. [Elapse g, Resize]) gaps) @ [Elapse T]) ?w2) =
           now ?w2 + sum_list gaps + T"
    using Cons.prems by (intro Cons.IH [OF _ t2]) simp_all
  then show ?case using Cons.prems e by (simp add: add.assoc)
qed

subsection \<open>A window the script left alone\<close>

lemma idle_step:
  assumes "idle w"
  shows "idle (step e w) \<and> page (step e w) = mutation e (page w) \<and>
         prefersReducedMotion (step e w) = prefersReducedMotion w"
proof (cases e)
  case (Elapse n)
  have "elapse n w = w\<lparr>now := now w + n\<rparr>"
    using assms by (intro elapse_none_due) (simp add: idle_def)
  then show ?thesis using assms Elapse by (simp add: idle_def)
qed (use assms in \<open>simp_all add: idle_def\<close>)

lemma idle_run:
  assumes "idle w"
  shows "idle (run evs w) \<and> page (run evs w) = fold mutation evs (page w) \<and>
         prefersReducedMotion (run evs w) = prefersReducedMotion w"
  using assms
proof (induction evs arbitrary: w)
  case Nil
  then show ?case by simp
next
  case (Cons e evs)
  from idle_step [OF Cons.prems, of e] Cons.IH [of "step e w"] show ?case by simp
qed

lemma step_prefersReducedMotion: "prefersReducedMotion (step e w) = prefersReducedMotion w"
  by (cases e) simp_all

lemma run_prefersReducedMotion: "prefersReducedMotion (run evs w) = prefersReducedMotion w"
  by (induction evs arbitrary: w) (simp_all add: step_prefersReducedMotion)

lemma updateParallax_rm:
  "updateParallax (w\<lparr>reduced_motion := b\<rparr>) = (updateParallax w)\<lparr>reduced_motion := b\<rparr>"
  by (simp add: updateParallax_def Let_def)

lemma funpow_updateParallax_rm:
  "(updateParallax ^^ n) (w\<lparr>reduced_motion := b\<rparr>) = ((updateParallax ^^ n) w)\<lparr>reduced_motion := b\<rparr>"
  by (induction n) (simp_all add: updateParallax_rm)

lemma fire_rm: "fire t (w\<lparr>reduced_motion := b\<rparr>) = (fire t w)\<lparr>reduced_motion := b\<rparr>"
  by (simp add: fire_def updateParallax_def Let_def)

lemma fold_fire_rm:
  "fold fire ts (w\<lparr>reduced_motion := b\<rparr>) = (fold fire ts w)\<lparr>reduced_motion := b\<rparr>"
  by (induction ts arbitrary: w) (simp_all add: fire_rm)

lemma step_rm:
  "\<not> is_PrefChange e \<Longrightarrow> step e (w\<lparr>reduced_motion := b\<rparr>) = (step e w)\<lparr>reduced_motion := b\<rparr>"
proof (cases e)
  case Frame
  have "w\<lparr>reduced_motion := b, frame_requests := 0\<rparr> = w\<lparr>frame_requests := 0, reduced_motion := b\<rparr>"
    by simp
  then have "(updateParallax ^^ frame_requests w) (w\<lparr>reduced_motion := b, frame_requests := 0\<rparr>) =
        ((updateParallax ^^ frame_requests w) (w\<lparr>frame_requests := 0\<rparr>))\<lparr>reduced_motion := b\<rparr>"
    by (simp only: funpow_updateParallax_rm)
  then show ?thesis using Frame by simp
qed (simp_all add: requestTick_def onResize_def setTimeout_def clearTimeout_def elapse_def Let_def
       fold_fire_rm split: option.splits)

lemma run_rm:
  "(run evs (w\<lparr>reduced_motion := b\<rparr>))\<lparr>reduced_motion := c\<rparr> = (run evs w)\<lparr>reduced_motion := c\<rparr>"
proof (induction evs arbitrary: w b)
  case Nil
  show ?case by simp
next
  case (Cons e evs)
  show ?case
  proof (cases "is_PrefChange e")
    case True
    then obtain b' where "e = PrefChange b'" by (cases e) simp_all
    then show ?thesis by simp
  next
    case False
    then show ?thesis using Cons.IH [where w = "step e w" and b = b] by (simp add: step_rm)
  qed
qed

lemma run_ignores_PrefChange:
  "(run evs w)\<lparr>reduced_motion := c\<rparr> =
   (run (filter (\<lambda>e. \<not> is_PrefChange e) evs) w)\<lparr>reduced_motion := c\<rparr>"
proof (induction evs arbitrary: w)
  case Nil
  show ?case by simp
next
  case (Cons e evs)
  show ?case
  proof (cases "is_PrefChange e")
    case True
    then obtain b' where "e = PrefChange b'" by (cases e) simp_all
    then show ?thesis using run_rm [where evs = evs and w = w and b = b' and c = c] Cons.IH [where w = w] by simp
  next
    case False
    then show ?thesis using Cons.IH [where w = "step e w"] by simp
  qed
qed

subsection \<open>Scroll events while a callback is queued\<close>

lemma scroll_while_ticking:
  "scroll_listener w \<Longrightarrow> ticking w \<Longrightarrow> run (replicate n Scroll) w = w"
  by (induction n) (simp_all add: requestTick_def)

lemma scroll_burst_one_pass:
  assumes "scroll_listener w" "\<not> ticking w" "frame_requests w = 0"
  shows "frame_requests (run (replicate (Suc n) Scroll) w) = 1 \<and>
         passes (run (replicate (Suc n) Scroll @ [Frame]) w) = passes w @ [now w] \<and>
         \<not> ticking (run (replicate (Suc n) Scroll @ [Frame]) w)"
proof -
  have "run (replicate (Suc n) Scroll) w = requestTick w"
    using assms scroll_while_ticking [of "requestTick w" n] by simp
  then show ?thesis using assms by simp
qed

lemma funpow_updateParallax_ticking:
  "ticking ((updateParallax ^^ n) w) = (if n = 0 then ticking w else False)"
  by (cases n) simp_all

lemma flag_inv_step:
  assumes "flag_inv w" "e \<noteq> Resize"
  shows "flag_inv (step e w)"
proof (cases e)
  case (Elapse n)
  have "elapse n w = w\<lparr>now := now w + n\<rparr>"
    using assms by (intro elapse_none_due) (simp add: flag_inv_def)
  then show ?thesis using assms Elapse by (simp add: flag_inv_def)
next
  case Frame
  then show ?thesis using assms
    by (auto simp: flag_inv_def funpow_updateParallax_ticking split: if_splits)
qed (use assms in \<open>auto simp: flag_inv_def\<close>)

lemma flag_inv_run: "flag_inv w \<Longrightarrow> Resize \<notin> set evs \<Longrightarrow> flag_inv (run evs w)"
  by (induction evs arbitrary: w) (auto simp: flag_inv_step)

lemma flag_inv_boot: "flag_inv (boot p rm)"
  by (simp add: flag_inv_def boot_def initParallax_def load_script_def fresh_def Let_def)

lemma one_callback_without_resize:
  assumes "Resize \<notin> set evs"
  shows "frame_requests (run evs (boot p rm)) \<le> 1 \<and>
         (ticking (run evs (boot p rm)) \<longleftrightarrow> frame_requests (run evs (boot p rm)) = 1)"
  using flag_inv_run [OF flag_inv_boot assms, of p rm] by (simp add: flag_inv_def)

section \<open>The demonstration page\<close>

lemma demo_depth: "depth demo_element = Num (1/2)"
  by (simp add: depth_def js_or_def demo_element_def parseFloat_def attrToString_def signedPrefix_def unsignedPrefix_def isWhiteSpace_def isDecimalDigit_def
   exponentPrefix_def decimalValue_def digitsValue_def fl_values)

lemma demo_element_fields:
  "data_depth demo_element = Some ''0.5''" "rect_top demo_element = 500"
  "offsetHeight demo_element = 100" "style_transform demo_element = Css ''scale(0.98)''"
  "data_depth far_element = Some ''-0.3''" "rect_top far_element = 5000"
  "offsetHeight far_element = 50" "style_transform far_element = Css ''none''"
  "data_depth plain_element = None"
  by (simp_all add: demo_element_def far_element_def plain_element_def)

lemma demo_active: "isInViewport 500 800 demo_element" "\<not> isInViewport 500 800 far_element"
  by (simp_all add: isInViewport_def elementTop_def demo_element_fields)

lemma demo_pass:
  "parallaxElement 500 800 demo_element = demo_element\<lparr>style_transform := Translate3d (Num (- 50))\<rparr>"
  "parallaxElement 500 800 far_element = far_element"
  by (simp_all add: parallaxElement_def demo_active offset_def elementTop_def demo_depth
      demo_element_fields fl_values)

lemma boot_demo_fields:
  "scroll_listener (boot demo_page False)"
  "resize_listener (boot demo_page False)"
  "\<not> ticking (boot demo_page False)"
  "frame_requests (boot demo_page False) = 0"
  "timers (boot demo_page False) = []"
  "resizeTimeout (boot demo_page False) = None"
  "next_timer (boot demo_page False) = 1"
  "now (boot demo_page False) = 0"
  "passes (boot demo_page False) = [0]"
  "parallaxElements (boot demo_page False) = [0, 1]"
  "\<not> prefersReducedMotion (boot demo_page False)"
  "scrollY (page (boot demo_page False)) = 500"
  "innerHeight (page (boot demo_page False)) = 800"
  by (simp_all add: boot_def fresh_def load_script_def initParallax_def
      querySelectorAll_data_depth_def Let_def demo_page_def demo_element_def far_element_def
      plain_element_def)

lemma demo_nodes:
  "node (page (boot demo_page False)) 0 = demo_element\<lparr>style_transform := Translate3d (Num (- 50))\<rparr>"
  "node (page (boot demo_page False)) (Suc 0) = far_element"
  "node (page (boot demo_page False)) 2 = plain_element"
  by (simp_all add: boot_def fresh_def load_script_def initParallax_def
      querySelectorAll_data_depth_def Let_def updateParallax_node demo_page_def
      demo_pass demo_element_fields)

lemmas scan_eval =
  depth_def js_or_def parseFloat_def attrToString_def signedPrefix_def unsignedPrefix_def
  isWhiteSpace_def isDecimalDigit_def exponentPrefix_def decimalValue_def digitsValue_def

section \<open>The offset of an active element\<close>

text \<open>
  \<^bold>\<open>C1.\<close> In a pass, every trackable element that passes the visibility test gets the
  vertical offset \<open>(s - elementTop + v / 2) * d\<close>, where \<open>s\<close> is the scroll offset read at
  the start of the pass, \<open>elementTop\<close> is the element's viewport-relative top plus \<open>s\<close>,
  \<open>v\<close> is the viewport height and \<open>d\<close> the element's depth coefficient. In particular an
  element with \<open>elementTop = 1000\<close> and height 100, seen at \<open>s = 500\<close> in a viewport 800
  high, is active and gets the offset \<open>-100 * d\<close>.
\<close>

theorem active_offset_formula:
  "(i \<in> set (parallaxElements w) \<and>
    isInViewport (scrollY (page w)) (innerHeight (page w)) (node (page w) i) \<longrightarrow>
      style_transform (node (page (updateParallax w)) i) =
        Translate3d
          (jsmul (Num (scrollY (page w) - (rect_top (node (page w) i) + scrollY (page w))
                       + real_of_int (innerHeight (page w)) / 2))
                 (depth (node (page w) i)))) \<and>
   (rect_top el + 500 = 1000 \<and> offsetHeight el = 100 \<longrightarrow>
      isInViewport 500 800 el \<and>
      style_transform (parallaxElement 500 800 el) = Translate3d (jsmul (Num (- 100)) (depth el)))"
  by (simp add: updateParallax_node parallaxElement_def offset_def elementTop_def isInViewport_def)

theorem active_offset_formula_witness:
  "0 \<in> set (parallaxElements (boot demo_page False)) \<and>
   isInViewport (scrollY (page (boot demo_page False))) (innerHeight (page (boot demo_page False)))
     (node (page (boot demo_page False)) 0) \<and>
   style_transform (node (page (updateParallax (boot demo_page False))) 0) =
     Translate3d (Num (- 50)) \<and>
   rect_top demo_element + 500 = 1000 \<and> offsetHeight demo_element = 100 \<and>
   isInViewport 500 800 demo_element \<and>
   style_transform (parallaxElement 500 800 demo_element) = Translate3d (Num (- 50))"
  using active_offset_formula [of 0 "boot demo_page False" demo_element]
  by (simp add: boot_demo_fields demo_nodes demo_element_fields demo_depth demo_active fl_values)

section \<open>The visibility test\<close>

text \<open>
  \<^bold>\<open>C2.\<close> In every pass a trackable element is treated as active if and only if
  \<open>elementTop < s + v + 200\<close> and \<open>elementTop + h > s - 200\<close>: an element that passes the
  test gets its transform written, an element that fails it is left as it was. For
  \<open>elementTop = 1000\<close>, \<open>h = 100\<close> and \<open>v = 800\<close> the scroll offsets at which the element is
  active are exactly those of the open interval from 0 to 1300.
\<close>

theorem visibility_test:
  "(isInViewport sy v el \<longleftrightarrow>
      rect_top el + sy < sy + real_of_int v + 200 \<and>
      rect_top el + sy + real_of_int (offsetHeight el) > sy - 200) \<and>
   (i \<in> set (parallaxElements w) \<and>
    isInViewport (scrollY (page w)) (innerHeight (page w)) (node (page w) i) \<longrightarrow>
      style_transform (node (page (updateParallax w)) i) =
        Translate3d (offset (scrollY (page w)) (innerHeight (page w))
                       (elementTop (scrollY (page w)) (node (page w) i))
                       (depth (node (page w) i)))) \<and>
   (\<not> isInViewport (scrollY (page w)) (innerHeight (page w)) (node (page w) j) \<longrightarrow>
      node (page (updateParallax w)) j = node (page w) j) \<and>
   (rect_top el' + s = 1000 \<and> offsetHeight el' = 100 \<longrightarrow>
      (isInViewport s 800 el' \<longleftrightarrow> 0 < s \<and> s < 1300))"
  by (auto simp: updateParallax_node parallaxElement_def isInViewport_def elementTop_def)

theorem visibility_test_witness:
  "isInViewport 500 800 demo_element \<and>
   0 \<in> set (parallaxElements (boot demo_page False)) \<and>
   style_transform (node (page (updateParallax (boot demo_page False))) 0) =
     Translate3d (Num (- 50)) \<and>
   \<not> isInViewport 500 800 far_element \<and>
   node (page (updateParallax (boot demo_page False))) 1 = far_element \<and>
   rect_top demo_element + 500 = 1000 \<and> offsetHeight demo_element = 100 \<and>
   (0::real) < 500 \<and> (500::real) < 1300"
  using visibility_test [of 500 800 demo_element 0 "boot demo_page False" 1 demo_element 500]
  by (simp add: boot_demo_fields demo_nodes demo_element_fields demo_depth demo_active
      offset_def elementTop_def fl_values)

section \<open>The depth coefficient\<close>

lemma depth_None: "data_depth el = None \<Longrightarrow> depth el = Num 0"
  by (simp add: scan_eval)

lemma depth_no_prefix: "data_depth el = Some s \<Longrightarrow> \<not> hasNumericPrefix s \<Longrightarrow> depth el = Num 0"
  by (simp add: depth_def parseFloat_no_prefix js_or_def)

lemma offset_zero: "offset sy v etop (Num 0) = Num 0"
  by (simp add: offset_def)

lemma abc_no_prefix: "\<not> hasNumericPrefix ''abc''"
proof
  assume "hasNumericPrefix ''abc''"
  then obtain p r v where s: "''abc'' = p @ r" and l: "StrDecimalLiteral p v"
    by (auto simp: hasNumericPrefix_def isWhiteSpace_def)
  from literal_head [OF l] s have "hd p = CHR ''a''"
    by (cases p) auto
  with literal_head [OF l] show False
    by (auto simp: isDecimalDigit_def)
qed

text \<open>
  \<^bold>\<open>C6.\<close> For a trackable element whose depth attribute is missing, or is a string
  with no numeric prefix, the depth coefficient used by the pass is 0; and with the depth
  coefficient 0 the computed offset is 0 whatever the scroll offset, the position of the
  element and the height of the viewport are. (The pass is a total function: it has no
  branch that raises, so it reports no error.)
\<close>

theorem depth_defaults_to_zero:
  "(data_depth el = None \<longrightarrow> depth el = Num 0) \<and>
   (data_depth el' = Some s \<and> \<not> hasNumericPrefix s \<longrightarrow> depth el' = Num 0) \<and>
   offset sy v etop (Num 0) = Num 0 \<and>
   (depth el = Num 0 \<and> isInViewport sy v el \<longrightarrow>
      style_transform (parallaxElement sy v el) = Translate3d (Num 0))"
  by (simp add: depth_None depth_no_prefix offset_zero parallaxElement_def)

theorem depth_defaults_to_zero_witness:
  "data_depth plain_element = None \<and> depth plain_element = Num 0 \<and>
   data_depth (demo_element\<lparr>data_depth := Some ''abc''\<rparr>) = Some ''abc'' \<and>
   \<not> hasNumericPrefix ''abc'' \<and>
   depth (demo_element\<lparr>data_depth := Some ''abc''\<rparr>) = Num 0 \<and>
   offset 500 800 1000 (Num 0) = Num 0 \<and>
   isInViewport 500 800 plain_element \<and>
   style_transform (parallaxElement 500 800 plain_element) = Translate3d (Num 0)"
  using depth_defaults_to_zero
    [of plain_element "demo_element\<lparr>data_depth := Some ''abc''\<rparr>" "''abc''" 500 800 1000]
  by (simp add: abc_no_prefix isInViewport_def elementTop_def plain_element_def)

lemma literal_1_5: "StrDecimalLiteral ''1.5'' (Num 1.5)"
proof -
  have "StrUnsignedDecimalLiteral (''1'' @ CHR ''.'' # ''5'' @ []) (fl (decimalValue ''1'' ''5'' 0))"
    by (intro lit_int_dot exp_absent) (simp_all add: isDigits_def isDecimalDigit_def)
  then have "StrUnsignedDecimalLiteral ''1.5'' (Num 1.5)"
    by (simp add: decimalValue_def digitsValue_def fl_values)
  then show ?thesis by (rule lit_unsigned)
qed

text \<open>
  \<^bold>\<open>C10.\<close> When the depth attribute is a numeric literal followed by characters that
  cannot continue it (as in \<open>1.5abc\<close>), the depth coefficient used by the pass is the value
  of that literal (1.5), not the fallback 0. The fallback 0 replaces the result of the
  parse only when that result is \<open>NaN\<close>, and the result is \<open>NaN\<close> exactly when the
  attribute value has no numeric prefix.
\<close>

theorem depth_is_numeric_prefix:
  "(data_depth el = Some s \<and> dropWhile isWhiteSpace s = p @ r \<and> StrDecimalLiteral p v \<and>
    endsLiteral r \<longrightarrow> parseFloat (data_depth el) = v \<and> v \<noteq> NaN \<and> depth el = v) \<and>
   depth el' = (if parseFloat (data_depth el') = NaN then Num 0 else parseFloat (data_depth el')) \<and>
   (parseFloat (Some s') = NaN \<longleftrightarrow> \<not> hasNumericPrefix s')"
  using literal_not_NaN [of p v] parseFloat_NaN_iff [of s']
  by (auto simp: depth_def js_or_zero parseFloat_prefix)

theorem depth_is_numeric_prefix_witness:
  "data_depth (demo_element\<lparr>data_depth := Some ''1.5abc''\<rparr>) = Some ''1.5abc'' \<and>
   dropWhile isWhiteSpace ''1.5abc'' = ''1.5'' @ ''abc'' \<and>
   StrDecimalLiteral ''1.5'' (Num 1.5) \<and> endsLiteral ''abc'' \<and>
   parseFloat (Some ''1.5abc'') = Num 1.5 \<and>
   depth (demo_element\<lparr>data_depth := Some ''1.5abc''\<rparr>) = Num 1.5 \<and>
   parseFloat (data_depth plain_element) = NaN \<and> depth plain_element = Num 0 \<and>
   parseFloat (Some ''abc'') = NaN"
  using depth_is_numeric_prefix
    [of "demo_element\<lparr>data_depth := Some ''1.5abc''\<rparr>" "''1.5abc''" "''1.5''" "''abc''" "Num 1.5"
        plain_element "''abc''"]
    literal_1_5 abc_no_prefix
  by (simp add: isWhiteSpace_def endsLiteral_def startsExponentPart_def isDecimalDigit_def
      isExponentIndicator_def
      plain_element_def parseFloat_def attrToString_def signedPrefix_def unsignedPrefix_def)

section \<open>Two passes, two depths, and what a pass overwrites\<close>

lemma host_reflects_unmoved:
  assumes "translateY (style_transform (node after i)) = translateY (style_transform (node before i))"
  shows "node (host_reflects before after) i = node after i"
  using assms by (simp add: host_reflects_def)

lemma host_reflects_fields [simp]:
  "scrollY (host_reflects before after) = scrollY after"
  "innerHeight (host_reflects before after) = innerHeight after"
  by (simp_all add: host_reflects_def)

lemma depth_update [simp]:
  "depth (el\<lparr>rect_top := r\<rparr>) = depth el" "depth (el\<lparr>style_transform := t\<rparr>) = depth el"
  by (simp_all add: depth_def)

lemma half_values:
  "fl (3 / 4) = Num (3 / 4)"
  by (subst fl_normal [where e = "- 1"]) (simp_all add: pow2_def roundTiesToEven_def)

lemma half_depth: "depth half_element = Num (1 / 2)"
  using fl_values(1) by (simp add: scan_eval half_element_def)

lemma half_element_fields:
  "data_depth half_element = Some ''0.5''" "rect_top half_element = 397"
  "offsetHeight half_element = 100" "style_transform half_element = Css ''none''"
  by (simp_all add: half_element_def)

lemma half_page_fields:
  "scrollY half_page = 500" "innerHeight half_page = 800" "node half_page i = half_element"
  "document_nodes half_page = [0]"
  by (simp_all add: half_page_def)

lemma half_pass:
  "parallaxElement 500 800 half_element =
     half_element\<lparr>style_transform := Translate3d (Num (3 / 2))\<rparr>"
  "parallaxElement 500 800
     (half_element\<lparr>rect_top := 797 / 2, style_transform := Translate3d (Num (3 / 2))\<rparr>) =
     half_element\<lparr>rect_top := 797 / 2, style_transform := Translate3d (Num (3 / 4))\<rparr>"
  using fl_values(3) half_values
  by (simp_all add: parallaxElement_def isInViewport_def elementTop_def offset_def half_depth
      half_element_fields)

lemma boot_half_fields:
  "scroll_listener (boot half_page False)"
  "\<not> ticking (boot half_page False)"
  "frame_requests (boot half_page False) = 0"
  "parallaxElements (boot half_page False) = [0]"
  "scrollY (page (boot half_page False)) = 500"
  "innerHeight (page (boot half_page False)) = 800"
  by (simp_all add: boot_def fresh_def load_script_def initParallax_def
      querySelectorAll_data_depth_def Let_def half_page_fields half_element_fields)

lemma half_nodes:
  "node (page (boot half_page False)) 0 =
     half_element\<lparr>style_transform := Translate3d (Num (3 / 2))\<rparr>"
  by (simp add: boot_def fresh_def load_script_def initParallax_def
      querySelectorAll_data_depth_def Let_def updateParallax_node half_page_fields
      half_pass half_element_fields)

lemma half_reflected:
  "node (host_reflects half_page (page (boot half_page False))) 0 =
     half_element\<lparr>rect_top := 797 / 2, style_transform := Translate3d (Num (3 / 2))\<rparr>"
  by (simp add: host_reflects_def half_nodes translateY_def half_page_fields half_element_fields)




lemma fl_in_range:
  assumes "pow2 (- 1022) \<le> \<bar>y\<bar>" "\<bar>y\<bar> < pow2 1023"
  shows "fl y = Num (round64 y)"
proof -
  have y: "0 < \<bar>y\<bar>" using assms(1) pow2_pos [of "- 1022"] by linarith
  define e where "e = ilog2 \<bar>y\<bar>"
  have b: "pow2 e \<le> \<bar>y\<bar>" "\<bar>y\<bar> < pow2 (e + 1)"
    using ilog2_bounds [OF y] by (simp_all add: e_def)
  have "pow2 (- 1022) < pow2 (e + 1)" "pow2 e < pow2 1023" using assms b by linarith+
  then have e: "- 1022 \<le> e" "e \<le> 1022" by simp_all
  show ?thesis using fl_normal [OF b e] round64_normal [OF b e(1)] by simp
qed

lemma tenth_values:
  "fl (1 / 10) = Num (3602879701896397 / 36028797018963968)"
  "fl (3 * (3602879701896397 / 36028797018963968)) = Num (1351079888211149 / 4503599627370496)"
  "fl (5 * (3602879701896397 / 36028797018963968)) = Num (1 / 2)"
  "fl (5 * (1351079888211149 / 4503599627370496)) = Num (6755399441055745 / 4503599627370496)"
  by (subst fl_normal [where e = "- 4"], simp_all add: pow2_def roundTiesToEven_def,
      subst fl_normal [where e = "- 2"], simp_all add: pow2_def roundTiesToEven_def,
      subst fl_normal [where e = "- 1"], simp_all add: pow2_def roundTiesToEven_def,
      subst fl_normal [where e = 0], simp_all add: pow2_def roundTiesToEven_def)

lemma tenth_depths:
  "depth tenth_element = Num (3602879701896397 / 36028797018963968)"
  "depth half_element = Num (1 / 2)"
  using tenth_values(1) fl_values(1)
  by (simp_all add: scan_eval tenth_element_def half_element_def)




lemma plain_active: "isInViewport 500 800 plain_element" "depth plain_element = Num 0"
  by (simp_all add: isInViewport_def elementTop_def plain_element_def depth_None)

text \<open>
  \<^bold>\<open>C9.\<close> For an element that passes the visibility test the pass assigns the
  transform whatever it was before and whatever the depth is. With the depth coefficient
  0 (a missing or unparseable attribute) it assigns the zero translation
  \<open>translate3d(0, 0px, 0)\<close>: a transform that other code had set on the element is
  overwritten, the element is not left untouched.
\<close>

theorem active_transform_overwritten:
  "(isInViewport sy v el \<longrightarrow>
      style_transform (parallaxElement sy v (el\<lparr>style_transform := t\<rparr>)) =
        Translate3d (offset sy v (elementTop sy el) (depth el))) \<and>
   (isInViewport sy v el \<and> depth el = Num 0 \<longrightarrow>
      style_transform (parallaxElement sy v (el\<lparr>style_transform := t\<rparr>)) = Translate3d (Num 0)) \<and>
   (isInViewport sy v el \<and> data_depth el = None \<longrightarrow>
      style_transform (parallaxElement sy v (el\<lparr>style_transform := t\<rparr>)) = Translate3d (Num 0)) \<and>
   (i \<in> set (parallaxElements w) \<and>
    isInViewport (scrollY (page w)) (innerHeight (page w)) (node (page w) i) \<and>
    depth (node (page w) i) = Num 0 \<longrightarrow>
      style_transform (node (page (updateParallax w)) i) = Translate3d (Num 0))"
  by (simp add: parallaxElement_def offset_zero depth_None updateParallax_node)

theorem active_transform_overwritten_witness:
  "isInViewport 500 800 plain_element \<and> depth plain_element = Num 0 \<and>
   data_depth plain_element = None \<and>
   style_transform (plain_element\<lparr>style_transform := Css ''rotate(3deg)''\<rparr>) =
     Css ''rotate(3deg)'' \<and>
   style_transform
     (parallaxElement 500 800 (plain_element\<lparr>style_transform := Css ''rotate(3deg)''\<rparr>)) =
     Translate3d (Num 0) \<and>
   0 \<in> set (parallaxElements (step (Mutate (\<lambda>p. p\<lparr>node := (\<lambda>i. plain_element)\<rparr>))
                (boot demo_page False))) \<and>
   style_transform
     (node (page (updateParallax (step (Mutate (\<lambda>p. p\<lparr>node := (\<lambda>i. plain_element)\<rparr>))
        (boot demo_page False)))) 0) = Translate3d (Num 0)"
  using active_transform_overwritten
    [of 500 800 plain_element "Css ''rotate(3deg)''" 0
        "step (Mutate (\<lambda>p. p\<lparr>node := (\<lambda>i. plain_element)\<rparr>)) (boot demo_page False)"]
  by (simp add: plain_active demo_element_fields boot_demo_fields offset_zero)

section \<open>Reduced motion\<close>

text \<open>
  \<^bold>\<open>C4.\<close> If the reduced-motion preference is active when the script starts, the
  parallax component registers no \<open>scroll\<close> and no \<open>resize\<close> listener, runs no pass and
  never modifies the transform of an element: whatever the host does before and after
  \<open>initParallax\<close>, no pass has run, nothing is queued, and the page is what the changes
  made by others have made of it. The preference is read once, into the script's constant,
  before any listener is attached, and not again: no event changes the constant, and the
  user changing the preference afterwards has no effect on what the script does.
\<close>

theorem reduced_motion_disables_parallax:
  "(\<not> scroll_listener (run evs2 (initParallax (run evs1 (load_script (fresh p True))))) \<and>
    \<not> resize_listener (run evs2 (initParallax (run evs1 (load_script (fresh p True))))) \<and>
    passes (run evs2 (initParallax (run evs1 (load_script (fresh p True))))) = [] \<and>
    frame_requests (run evs2 (initParallax (run evs1 (load_script (fresh p True))))) = 0 \<and>
    timers (run evs2 (initParallax (run evs1 (load_script (fresh p True))))) = [] \<and>
    page (run evs2 (initParallax (run evs1 (load_script (fresh p True))))) =
      fold mutation (evs1 @ evs2) p) \<and>
   prefersReducedMotion (run evs w) = prefersReducedMotion w \<and>
   (run evs w)\<lparr>reduced_motion := c\<rparr> =
     (run (filter (\<lambda>e. \<not> is_PrefChange e) evs) w)\<lparr>reduced_motion := c\<rparr>"
proof -
  let ?w0 = "load_script (fresh p True)"
  let ?w1 = "run evs1 ?w0"
  have i0: "idle ?w0" and p0: "prefersReducedMotion ?w0" and g0: "page ?w0 = p"
    by (simp_all add: idle_def load_script_def fresh_def)
  have i1: "idle ?w1" and g1: "page ?w1 = fold mutation evs1 p" and p1: "prefersReducedMotion ?w1"
    using idle_run [OF i0, of evs1] p0 g0 by simp_all
  have init: "initParallax ?w1 = ?w1"
    using p1 by (simp add: initParallax_def)
  have "idle (run evs2 ?w1) \<and> page (run evs2 ?w1) = fold mutation evs2 (page ?w1)"
    using idle_run [OF i1, of evs2] by simp
  then show ?thesis
    using init g1 run_prefersReducedMotion [of evs w]
      run_ignores_PrefChange [where evs = evs and w = w and c = c]
    by (simp add: idle_def)
qed

theorem reduced_motion_disables_parallax_witness:
  "passes (run [Scroll, Resize, Elapse 200, Frame]
     (initParallax (run [PrefChange False, Mutate (\<lambda>p. p\<lparr>scrollY := 900\<rparr>)]
        (load_script (fresh demo_page True))))) = [] \<and>
   \<not> scroll_listener (run [Scroll, Resize, Elapse 200, Frame]
     (initParallax (run [PrefChange False, Mutate (\<lambda>p. p\<lparr>scrollY := 900\<rparr>)]
        (load_script (fresh demo_page True))))) \<and>
   page (run [Scroll, Resize, Elapse 200, Frame]
     (initParallax (run [PrefChange False, Mutate (\<lambda>p. p\<lparr>scrollY := 900\<rparr>)]
        (load_script (fresh demo_page True))))) = demo_page\<lparr>scrollY := 900\<rparr> \<and>
   \<not> prefersReducedMotion (run [PrefChange True, Scroll] (boot demo_page False)) \<and>
   (run [PrefChange True, Scroll] (boot demo_page False))\<lparr>reduced_motion := False\<rparr> =
     (run [Scroll] (boot demo_page False))\<lparr>reduced_motion := False\<rparr>"
  using reduced_motion_disables_parallax
    [where ?evs2.0 = "[Scroll, Resize, Elapse 200, Frame]"
       and ?evs1.0 = "[PrefChange False, Mutate (\<lambda>p. p\<lparr>scrollY := 900\<rparr>)]"
       and p = demo_page and evs = "[PrefChange True, Scroll]" and w = "boot demo_page False"
       and c = False]
  by (simp add: boot_demo_fields del: run_simps)

section \<open>The debounce of \<open>resize\<close>\<close>

text \<open>
  \<^bold>\<open>C5.\<close> A sequence of \<open>resize\<close> events in which each event comes less than 150 ms
  after the one before produces exactly one pass, and that pass runs 150 ms after the
  last event of the sequence (a timer runs at the time it falls due). Each \<open>resize\<close> event
  cancels the pending timer and sets a new one: after it, the one pending timer is the new
  one, due 150 ms later. This holds in every state in which the pending timers are those
  of \<open>resizeTimeout\<close>, as they are in every state the script reaches.
\<close>

theorem resize_debounce:
  "(resize_listener w \<and> timer_inv w \<and> (\<forall>g\<in>set gaps. g < 150) \<and> 150 \<le> T \<longrightarrow>
      passes (run (resize_burst gaps @ [Elapse T]) w) = passes w @ [now w + sum_list gaps + 150] \<and>
      timers (run (resize_burst gaps @ [Elapse T]) w) = []) \<and>
   (resize_listener w \<and> timer_inv w \<longrightarrow>
      timers (step Resize w) = [(next_timer w, now w + 150)]) \<and>
   timer_inv (run evs (boot p rm))"
proof (intro conjI impI)
  assume a: "resize_listener w \<and> timer_inv w \<and> (\<forall>g\<in>set gaps. g < 150) \<and> 150 \<le> T"
  let ?w1 = "onResize w"
  have t: "timers ?w1 = [(next_timer w, now ?w1 + 150)]"
    using a onResize_armed by simp
  have b: "passes (run (concat (map (\<lambda>g. [Elapse g, Resize]) gaps) @ [Elapse T]) ?w1) =
           passes ?w1 @ [now ?w1 + sum_list gaps + 150] \<and>
         timers (run (concat (map (\<lambda>g. [Elapse g, Resize]) gaps) @ [Elapse T]) ?w1) = [] \<and>
         now (run (concat (map (\<lambda>g. [Elapse g, Resize]) gaps) @ [Elapse T]) ?w1) =
           now ?w1 + sum_list gaps + T"
    using a by (intro burst_tail [OF _ t]) simp_all
  show "passes (run (resize_burst gaps @ [Elapse T]) w) = passes w @ [now w + sum_list gaps + 150]"
    using a b by (simp add: resize_burst_def)
  show "timers (run (resize_burst gaps @ [Elapse T]) w) = []"
    using a b by (simp add: resize_burst_def)
next
  assume "resize_listener w \<and> timer_inv w"
  then show "timers (step Resize w) = [(next_timer w, now w + 150)]"
    using onResize_armed by simp
next
  show "timer_inv (run evs (boot p rm))"
    by (simp add: timer_inv_run timer_inv_boot)
qed

theorem resize_debounce_witness:
  "resize_listener (boot demo_page False) \<and> timer_inv (boot demo_page False) \<and>
   list_all (\<lambda>g. g < 150) [100, 149, 20 :: nat] \<and> (150 :: nat) \<le> 150 \<and>
   passes (run (resize_burst [100, 149, 20] @ [Elapse 150]) (boot demo_page False)) = [0, 419] \<and>
   timers (run (resize_burst [100, 149, 20] @ [Elapse 150]) (boot demo_page False)) = [] \<and>
   timers (step Resize (boot demo_page False)) = [(1, 150)] \<and>
   timer_inv (run [Scroll, Resize] (boot demo_page False))"
  using resize_debounce
    [where w = "boot demo_page False" and gaps = "[100, 149, 20]" and T = 150
       and evs = "[Scroll, Resize]" and p = demo_page and rm = False]
    timer_inv_boot [of demo_page False]
  by (simp add: boot_demo_fields del: run_simps)

section \<open>The scheduling flag\<close>

text \<open>
  As long as no \<open>resize\<close> event has come, the flag does what it is there for
  (\<open>one_callback_without_resize\<close>): at most one callback is queued, it is queued exactly
  when the flag is set, and a burst of \<open>scroll\<close> events before a refresh gives one pass
  (\<open>scroll_burst_one_pass\<close>).
\<close>

text \<open>
  \<^bold>\<open>C3.\<close> The statement is that at most one computation is queued for the next
  display refresh at any time, that the flag is cleared exactly when the queued computation
  runs, and that any number of \<open>scroll\<close> events within one refresh interval produce
  exactly one pass. The script does not keep it: the flag is cleared at the end of
  \<open>updateParallax\<close>, whoever called it, and the timer of the \<open>resize\<close> handler calls it
  too. On the demonstration page: a \<open>resize\<close> at time 0, a \<open>scroll\<close> at 145 (one callback
  queued, flag set), the timer at 150 (a pass, after which the flag is clear while the
  callback is still queued), a second \<open>scroll\<close> at 152, before any refresh: two callbacks
  are queued, and the refresh at 156 runs two passes.
\<close>

theorem requestTick_double_queue:
  "\<not> ticking (run [Resize, Elapse 145, Scroll, Elapse 5] (boot demo_page False)) \<and>
   frame_requests (run [Resize, Elapse 145, Scroll, Elapse 5] (boot demo_page False)) = 1 \<and>
   frame_requests
     (run [Resize, Elapse 145, Scroll, Elapse 5, Elapse 2, Scroll] (boot demo_page False)) = 2 \<and>
   passes
     (run [Resize, Elapse 145, Scroll, Elapse 5, Elapse 2, Scroll, Elapse 4, Frame]
        (boot demo_page False)) = [0, 150, 156, 156]"
proof -
  let ?w0 = "boot demo_page False"
  let ?w1 = "onResize ?w0"
  let ?w2 = "?w1\<lparr>now := 145\<rparr>"
  let ?w3 = "requestTick ?w2"
  let ?w4 = "(fire (1, 150) ?w3)\<lparr>now := 150\<rparr>"
  let ?w5 = "?w4\<lparr>now := 152\<rparr>"
  let ?w6 = "requestTick ?w5"
  let ?w7 = "?w6\<lparr>now := 156\<rparr>"
  note b = boot_demo_fields
  have s1: "step Resize ?w0 = ?w1" using b by simp
  have t1: "timers ?w1 = [(1, 150)]" using b by simp
  have "elapse 145 ?w1 = ?w1\<lparr>now := now ?w1 + 145\<rparr>"
    using t1 b by (intro elapse_none_due) simp
  then have s2: "step (Elapse 145) ?w1 = ?w2" using b by simp
  have s3: "step Scroll ?w2 = ?w3" using b by simp
  have "elapse 5 ?w3 = (fire (1, 150) ?w3)\<lparr>now := now ?w3 + 5\<rparr>"
    using t1 by (intro elapse_one_due) simp_all
  then have s4: "step (Elapse 5) ?w3 = ?w4" by simp
  have "elapse 2 ?w4 = ?w4\<lparr>now := now ?w4 + 2\<rparr>"
    using t1 by (intro elapse_none_due) simp
  then have s5: "step (Elapse 2) ?w4 = ?w5" by simp
  have f4: "\<not> ticking ?w4" "frame_requests ?w4 = 1" using b by simp_all
  have s6: "step Scroll ?w5 = ?w6" using b by simp
  have f6: "frame_requests ?w6 = 2" using b by simp
  have "elapse 4 ?w6 = ?w6\<lparr>now := now ?w6 + 4\<rparr>"
    using t1 by (intro elapse_none_due) simp
  then have s7: "step (Elapse 4) ?w6 = ?w7" by simp
  have p7: "passes (step Frame ?w7) = [0, 150, 156, 156]"
    using b f6 by (simp add: numeral_2_eq_2)
  have r4: "run [Resize, Elapse 145, Scroll, Elapse 5] ?w0 = ?w4"
    by (simp only: run_simps s1 s2 s3 s4)
  have r6: "run [Resize, Elapse 145, Scroll, Elapse 5, Elapse 2, Scroll] ?w0 = ?w6"
    by (simp only: run_simps s1 s2 s3 s4 s5 s6)
  have r8: "run [Resize, Elapse 145, Scroll, Elapse 5, Elapse 2, Scroll, Elapse 4, Frame] ?w0 =
              step Frame ?w7"
    by (simp only: run_simps s1 s2 s3 s4 s5 s6 s7)
  show ?thesis
    unfolding r4 r6 r8 using f4 f6 p7 by blast
qed

end
